theory Spec2Isabelle
  imports Main "HOL-Library.Word"
begin

unbundle bit_operations_syntax

section \<open>The NFS client write-back cache of fs/nfs/write.c\<close>

text \<open>
  The development embeds the request bookkeeping of \<^verbatim>\<open>fs/nfs/write.c\<close>: the
  \<^verbatim>\<open>struct nfs_page\<close> records, the per-inode lists they are linked into, the
  coalescing of dirty requests, the completion handlers of the WRITE and COMMIT calls,
  the request allocation under the soft and hard limits, and the synchronous page write.

  Machine integers: \<^verbatim>\<open>unsigned int\<close> is a 32-bit word; \<^verbatim>\<open>unsigned long\<close> is taken at
  its width on the ILP32 targets of the tree (i386, arm, m68k, ppc), 32 bits as well.
  Pointers to \<^verbatim>\<open>struct nfs_page\<close>, \<^verbatim>\<open>struct page\<close> and \<^verbatim>\<open>struct file\<close> are
  natural numbers (addresses) into explicit stores.
\<close>

type_synonym u32 = "32 word"
type_synonym ulong = "32 word"

subsection \<open>Data\<close>

text \<open>
  The list heads a request's \<^verbatim>\<open>wb_list\<close> link can be threaded on: the inode's
  \<^verbatim>\<open>dirty\<close> and \<^verbatim>\<open>commit\<close> lists, the local \<^verbatim>\<open>head\<close> of the flush and commit
  entry points, the local \<^verbatim>\<open>one_request\<close> of \<^verbatim>\<open>nfs_flush_list\<close>, and the
  \<^verbatim>\<open>pages\<close> list of a \<^verbatim>\<open>struct nfs_write_data\<close>.
\<close>

datatype list_head = DIRTY | COMMIT | HEAD | ONE_REQUEST | PAGES

definition all_heads :: "list_head list" where
  "all_heads = [DIRTY, COMMIT, HEAD, ONE_REQUEST, PAGES]"

datatype nfs3_stable_how = NFS_UNSTABLE | NFS_DATA_SYNC | NFS_FILE_SYNC

record nfs_writeverf =
  committed :: nfs3_stable_how
  verifier :: "u32 \<times> u32"

text \<open>
  \<^verbatim>\<open>struct nfs_page\<close>. The two \<^verbatim>\<open>list_head\<close> links \<^verbatim>\<open>wb_hash\<close> and \<^verbatim>\<open>wb_list\<close>
  are kept in the state below, as the contents of the lists they thread; the wait queue
  \<^verbatim>\<open>wb_wait\<close> appears as the log of its wake-ups.
\<close>

record nfs_page =
  wb_list_head :: "list_head option"
  wb_file :: nat
  wb_cred :: nat
  wb_page :: nat
  wb_timeout :: ulong
  wb_offset :: u32
  wb_bytes :: u32
  wb_count :: u32
  wb_flags :: u32
  wb_verf :: nfs_writeverf

text \<open>
  The state the functions work on: the memory of the request structs, the contents of
  every list (in list order, first element next to the head), the inode's \<^verbatim>\<open>writeback\<close>
  list threading \<^verbatim>\<open>wb_hash\<close>, the inode's counters, the \<^verbatim>\<open>index\<close> of each page, the
  \<^verbatim>\<open>f_error\<close> of each file, the global and per-server request counts, the requests
  handed to \<^verbatim>\<open>nfs_page_free\<close>, the requests whose \<^verbatim>\<open>wb_wait\<close> was woken, and the
  number of wake-ups of \<^verbatim>\<open>request_wait\<close>.
\<close>

record nfs_state =
  reqs :: "nat \<Rightarrow> nfs_page"
  lists :: "list_head \<Rightarrow> nat list"
  writeback :: "nat list"
  npages :: u32
  ndirty :: u32
  ncommit :: u32
  page_index :: "nat \<Rightarrow> ulong"
  f_error :: "nat \<Rightarrow> int"
  nfs_nr_requests :: u32
  cache_nr_requests :: u32
  freed :: "nat list"
  woken :: "nat list"
  request_wakeups :: nat

definition PG_BUSY :: u32 where
  "PG_BUSY = 1"

definition NFS_WBACK_BUSY :: "nfs_page \<Rightarrow> bool" where
  "NFS_WBACK_BUSY req = (wb_flags req AND PG_BUSY \<noteq> 0)"

text \<open>\<^verbatim>\<open>list_empty(&req->wb_list)\<close>: the request is threaded on no list.\<close>

definition wb_list_empty :: "nfs_state \<Rightarrow> nat \<Rightarrow> bool" where
  "wb_list_empty s r = list_all (\<lambda>h. r \<notin> set (lists s h)) all_heads"

text \<open>\<^verbatim>\<open>list_empty(&req->wb_hash)\<close>: the request is not on the inode's writeback list.\<close>

definition wb_hash_empty :: "nfs_state \<Rightarrow> nat \<Rightarrow> bool" where
  "wb_hash_empty s r = (r \<notin> set (writeback s))"

definition req_index :: "nfs_state \<Rightarrow> nat \<Rightarrow> ulong" where
  "req_index s r = page_index s (wb_page (reqs s r))"

definition upd_req :: "nat \<Rightarrow> (nfs_page \<Rightarrow> nfs_page) \<Rightarrow> nfs_state \<Rightarrow> nfs_state" where
  "upd_req r f s = s\<lparr>reqs := (reqs s)(r := f (reqs s r))\<rparr>"

text \<open>
  The constants of the headers that are not part of the sources at hand are the fields
  of \<open>nfs_consts\<close>, together with the \<^verbatim>\<open>NFS_MOUNT_INTR\<close> flag of the mount.
\<close>

record nfs_consts =
  MAX_REQUEST_SOFT :: u32
  MAX_REQUEST_HARD :: u32
  NFS_WRITEBACK_DELAY :: ulong
  NFS_WRITEBACK_LOCKDELAY :: ulong
  NFS_COMMIT_DELAY :: ulong
  PAGE_CACHE_SIZE :: ulong
  PAGE_CACHE_SHIFT :: nat
  EIO :: int
  mount_intr :: bool

subsection \<open>List primitives\<close>

text \<open>
  The walk of \<^verbatim>\<open>nfs_list_add_request\<close>: from the tail of the list towards its head,
  past every entry whose page index is not below the new request's; the request is
  linked in after the entry the walk stops at. The argument list is the list read from
  its tail.
\<close>

fun add_from_tail :: "(nat \<Rightarrow> ulong) \<Rightarrow> nat \<Rightarrow> nat list \<Rightarrow> nat list" where
  "add_from_tail idx r [] = [r]"
| "add_from_tail idx r (p # ps) =
     (if idx p < idx r then r # p # ps else p # add_from_tail idx r ps)"

definition list_add_sorted :: "(nat \<Rightarrow> ulong) \<Rightarrow> nat \<Rightarrow> nat list \<Rightarrow> nat list" where
  "list_add_sorted idx r xs = rev (add_from_tail idx r (rev xs))"

definition nfs_list_add_request :: "nat \<Rightarrow> list_head \<Rightarrow> nfs_state \<Rightarrow> nfs_state" where
  "nfs_list_add_request r h s =
     (if \<not> wb_list_empty s r then s
      else if wb_hash_empty s r then s
      else upd_req r (\<lambda>q. q\<lparr>wb_list_head := Some h\<rparr>)
             (s\<lparr>lists := (lists s)(h := list_add_sorted (req_index s) r (lists s h))\<rparr>))"

definition nfs_list_remove_request :: "nat \<Rightarrow> nfs_state \<Rightarrow> nfs_state" where
  "nfs_list_remove_request r s =
     (if wb_list_empty s r then s
      else upd_req r (\<lambda>q. q\<lparr>wb_list_head := None\<rparr>)
             (s\<lparr>lists := (\<lambda>h. removeAll r (lists s h))\<rparr>))"

definition nfs_inode_add_request :: "nat \<Rightarrow> nfs_state \<Rightarrow> nfs_state" where
  "nfs_inode_add_request r s =
     (if \<not> wb_hash_empty s r then s
      else upd_req r (\<lambda>q. q\<lparr>wb_count := wb_count q + 1\<rparr>)
             (s\<lparr>npages := npages s + 1, writeback := r # writeback s\<rparr>))"

subsection \<open>Releasing a request\<close>

text \<open>
  \<^verbatim>\<open>nfs_release_request\<close> drops one reference and, when the count reaches zero, unlinks
  the request from whatever it is still on and frees it; \<^verbatim>\<open>nfs_inode_remove_request\<close>
  unhashes the request and releases the reference the hash held. Each calls the other.
\<close>

function nfs_release_request :: "nat \<Rightarrow> nfs_state \<Rightarrow> nfs_state"
  and nfs_inode_remove_request :: "nat \<Rightarrow> nfs_state \<Rightarrow> nfs_state" where
  "nfs_release_request r s =
     (let s1 = upd_req r (\<lambda>q. q\<lparr>wb_count := wb_count q - 1\<rparr>) s in
      if wb_count (reqs s1 r) \<noteq> 0 then s1
      else
        let s2 = (if \<not> wb_list_empty s1 r then nfs_list_remove_request r s1 else s1);
            s3 = (if \<not> wb_hash_empty s2 r then nfs_inode_remove_request r s2 else s2)
        in s3\<lparr>freed := r # freed s3,
               cache_nr_requests := cache_nr_requests s3 - 1,
               nfs_nr_requests := nfs_nr_requests s3 - 1,
               request_wakeups := Suc (request_wakeups s3)\<rparr>)"
| "nfs_inode_remove_request r s =
     (if wb_hash_empty s r then s
      else nfs_release_request r
             (s\<lparr>writeback := removeAll r (writeback s), npages := npages s - 1\<rparr>))"
  by pat_completeness auto
termination
  by (relation "measure (\<lambda>x. case x of
           Inl (r, s) \<Rightarrow> (if r \<in> set (writeback s) then 2 else 0)
         | Inr (r, s) \<Rightarrow> (if r \<in> set (writeback s) then 1 else 0))")
     (auto simp: wb_hash_empty_def upd_req_def nfs_list_remove_request_def split: if_splits)

subsection \<open>Locking\<close>

definition nfs_lock_request :: "nat \<Rightarrow> nfs_state \<Rightarrow> bool \<times> nfs_state" where
  "nfs_lock_request r s =
     (if NFS_WBACK_BUSY (reqs s r) then (False, s)
      else (True, upd_req r (\<lambda>q. q\<lparr>wb_count := wb_count q + 1,
                                   wb_flags := wb_flags q OR PG_BUSY\<rparr>) s))"

definition nfs_unlock_request :: "nat \<Rightarrow> nfs_state \<Rightarrow> nfs_state" where
  "nfs_unlock_request r s =
     (if \<not> NFS_WBACK_BUSY (reqs s r) then s
      else nfs_release_request r
             ((upd_req r (\<lambda>q. q\<lparr>wb_flags := wb_flags q AND NOT PG_BUSY\<rparr>) s)
                \<lparr>woken := r # woken s\<rparr>))"

subsection \<open>The dirty and commit lists\<close>

text \<open>
  \<^verbatim>\<open>nfs_mark_request_dirty\<close> and \<^verbatim>\<open>nfs_mark_request_commit\<close>; the call of
  \<^verbatim>\<open>inode_schedule_scan\<close> that ends both belongs to the flush daemon and changes
  nothing of the state kept here.
\<close>

definition nfs_mark_request_dirty :: "nat \<Rightarrow> nfs_state \<Rightarrow> nfs_state" where
  "nfs_mark_request_dirty r s =
     (if wb_list_empty s r
      then (nfs_list_add_request r DIRTY s)\<lparr>ndirty := ndirty s + 1\<rparr>
      else s)"

definition nfs_mark_request_commit :: "nat \<Rightarrow> nfs_state \<Rightarrow> nfs_state" where
  "nfs_mark_request_commit r s =
     (if wb_list_empty s r
      then (nfs_list_add_request r COMMIT s)\<lparr>ncommit := ncommit s + 1\<rparr>
      else s)"

definition nfs_dirty_request :: "nfs_state \<Rightarrow> nat \<Rightarrow> bool" where
  "nfs_dirty_request s r = (\<not> wb_list_empty s r \<and> wb_list_head (reqs s r) = Some DIRTY)"

subsection \<open>Scanning a list\<close>

text \<open>
  The loop of \<^verbatim>\<open>nfs_scan_list\<close> reads \<^verbatim>\<open>p->next\<close> before it touches the entry, so it
  visits the entries the source list had on entry, in order; the list argument of
  \<open>scan_loop\<close> is what is left to visit. The file argument is \<open>None\<close> for \<^verbatim>\<open>NULL\<close>.
\<close>

fun scan_loop ::
    "list_head \<Rightarrow> nat option \<Rightarrow> ulong \<Rightarrow> ulong \<Rightarrow> nat list \<Rightarrow> u32 \<Rightarrow> nfs_state \<Rightarrow> u32 \<times> nfs_state" where
  "scan_loop dst file idx_start idx_end [] pages s = (pages, s)"
| "scan_loop dst file idx_start idx_end (req # ps) pages s =
     (if file \<noteq> None \<and> Some (wb_file (reqs s req)) \<noteq> file
      then scan_loop dst file idx_start idx_end ps pages s
      else if req_index s req < idx_start \<or> idx_end < req_index s req
      then scan_loop dst file idx_start idx_end ps pages s
      else case nfs_lock_request req s of
             (False, s1) \<Rightarrow> scan_loop dst file idx_start idx_end ps pages s1
           | (True, s1) \<Rightarrow>
               scan_loop dst file idx_start idx_end ps (pages + 1)
                 (nfs_list_add_request req dst (nfs_list_remove_request req s1)))"

definition nfs_scan_list ::
    "nfs_consts \<Rightarrow> list_head \<Rightarrow> list_head \<Rightarrow> nat option \<Rightarrow> ulong \<Rightarrow> u32 \<Rightarrow> nfs_state \<Rightarrow> u32 \<times> nfs_state" where
  "nfs_scan_list k src dst file start count s =
     (let idx_start = drop_bit (PAGE_CACHE_SHIFT k) start;
          idx_end = (if count = 0 then NOT 0
                     else idx_start + drop_bit (PAGE_CACHE_SHIFT k) count)
      in scan_loop dst file idx_start idx_end (lists s src) 0 s)"

definition nfs_scan_dirty ::
    "nfs_consts \<Rightarrow> list_head \<Rightarrow> nat option \<Rightarrow> ulong \<Rightarrow> u32 \<Rightarrow> nfs_state \<Rightarrow> u32 \<times> nfs_state" where
  "nfs_scan_dirty k dst file start count s =
     (case nfs_scan_list k DIRTY dst file start count s of
        (pages, s') \<Rightarrow> (pages, s'\<lparr>ndirty := ndirty s' - pages\<rparr>))"

definition nfs_scan_commit ::
    "nfs_consts \<Rightarrow> list_head \<Rightarrow> nat option \<Rightarrow> ulong \<Rightarrow> u32 \<Rightarrow> nfs_state \<Rightarrow> u32 \<times> nfs_state" where
  "nfs_scan_commit k dst file start count s =
     (case nfs_scan_list k COMMIT dst file start count s of
        (pages, s') \<Rightarrow> (pages, s'\<lparr>ncommit := ncommit s' - pages\<rparr>))"

subsection \<open>Coalescing\<close>

text \<open>
  The loop of \<^verbatim>\<open>coalesce_requests\<close>, with its variables \<^verbatim>\<open>req\<close> (the request of the
  pass before, \<open>None\<close> for \<^verbatim>\<open>NULL\<close>) and \<^verbatim>\<open>pages\<close>. A pass that does not leave the
  loop has counted fewer than \<^verbatim>\<open>maxpages\<close> pages, which bounds the number of passes.
\<close>

definition coalesce_stop :: "nfs_state \<Rightarrow> nat option \<Rightarrow> nat \<Rightarrow> bool" where
  "coalesce_stop s prev req =
     (case prev of
        None \<Rightarrow> False
      | Some p \<Rightarrow>
          wb_file (reqs s req) \<noteq> wb_file (reqs s p)
          \<or> req_index s req \<noteq> req_index s p + 1
          \<or> wb_offset (reqs s req) \<noteq> 0)"

function coalesce_loop ::
    "nfs_consts \<Rightarrow> list_head \<Rightarrow> list_head \<Rightarrow> u32 \<Rightarrow> nat option \<Rightarrow> u32 \<Rightarrow> nfs_state \<Rightarrow> u32 \<times> nfs_state" where
  "coalesce_loop k src dst maxpages prev pages s =
     (case lists s src of
        [] \<Rightarrow> (pages, s)
      | req # rest \<Rightarrow>
          if coalesce_stop s prev req then (pages, s)
          else
            let s' = nfs_list_add_request req dst (nfs_list_remove_request req s)
            in if wb_offset (reqs s' req) + wb_bytes (reqs s' req) \<noteq> PAGE_CACHE_SIZE k
               then (pages + 1, s')
               else if maxpages \<le> pages + 1 then (pages + 1, s')
               else coalesce_loop k src dst maxpages (Some req) (pages + 1) s')"
  by pat_completeness auto
termination
proof (relation "measure (\<lambda>(k, src, dst, maxpages, prev, pages, s). unat (maxpages - pages - 1))",
       goal_cases)
  case 1
  show ?case by simp
next
  case (2 k src dst maxpages prev pages s req rest s')
  define d where "d = maxpages - (pages + 1)"
  from 2 have "pages + 1 < maxpages"
    by simp
  then have "d \<noteq> 0"
    by (auto simp: d_def)
  then have "unat (d - 1) < unat d"
    by (simp add: unat_minus_one unat_gt_0)
  moreover have "maxpages - (pages + 1) - 1 = d - 1" and "maxpages - pages - 1 = d"
    by (simp_all add: d_def)
  ultimately show ?case
    by simp
qed

definition coalesce_requests ::
    "nfs_consts \<Rightarrow> list_head \<Rightarrow> list_head \<Rightarrow> u32 \<Rightarrow> nfs_state \<Rightarrow> u32 \<times> nfs_state" where
  "coalesce_requests k src dst maxpages s = coalesce_loop k src dst maxpages None 0 s"

subsection \<open>Creating a request under the soft and hard limits\<close>

text \<open>
  What one pass of the \<^verbatim>\<open>do\<close> loop of \<^verbatim>\<open>nfs_create_request\<close> meets: the effect on
  the state of \<^verbatim>\<open>nfs_wb_file\<close> (called when the soft limit is reached), the pointer
  \<^verbatim>\<open>nfs_page_alloc\<close> would return, the effect of the other tasks that run while the
  caller sleeps for at most \<^verbatim>\<open>1 * HZ\<close>, and whether the caller is signalled after the
  sleep. A run is given one such record per pass; a run that needs more passes than it
  is given is still in the loop (\<open>None\<close>).
\<close>

record create_pass =
  wb_file_effect :: "nfs_state \<Rightarrow> nfs_state"
  alloc_result :: "nat option"
  sleep_effect :: "nfs_state \<Rightarrow> nfs_state"
  signalled :: bool

definition after_soft_limit :: "nfs_consts \<Rightarrow> create_pass \<Rightarrow> nfs_state \<Rightarrow> nfs_state" where
  "after_soft_limit k e s =
     (if MAX_REQUEST_SOFT k \<le> nfs_nr_requests s then wb_file_effect e s else s)"

fun create_wait ::
    "nfs_consts \<Rightarrow> create_pass list \<Rightarrow> nfs_state \<Rightarrow> (nat option \<times> nfs_state) option" where
  "create_wait k [] s = None"
| "create_wait k (e # es) s =
     (let s1 = after_soft_limit k e s
      in if nfs_nr_requests s1 < MAX_REQUEST_HARD k \<and> alloc_result e \<noteq> None
         then Some (alloc_result e, s1)
         else
           let s2 = sleep_effect e s1
           in if mount_intr k \<and> signalled e then Some (None, s2)
              else create_wait k es s2)"

text \<open>
  The arguments after the constants: the file, the page, \<^verbatim>\<open>offset\<close>, \<^verbatim>\<open>count\<close>,
  whether \<^verbatim>\<open>region_locked\<close> holds, \<^verbatim>\<open>jiffies\<close>, the credential looked up, and the
  passes. The result is the pointer returned (\<open>None\<close> for \<^verbatim>\<open>NULL\<close>) and the state.
\<close>

definition nfs_create_request ::
    "nfs_consts \<Rightarrow> nat \<Rightarrow> nat \<Rightarrow> u32 \<Rightarrow> u32 \<Rightarrow> bool \<Rightarrow> ulong \<Rightarrow> nat \<Rightarrow> create_pass list \<Rightarrow>
     nfs_state \<Rightarrow> (nat option \<times> nfs_state) option" where
  "nfs_create_request k file page offset count locked jiffies cred es s =
     (case create_wait k es s of
        None \<Rightarrow> None
      | Some (None, s') \<Rightarrow> Some (None, s')
      | Some (Some r, s') \<Rightarrow>
          Some (Some r,
            s'\<lparr>reqs := (reqs s')(r :=
                  \<lparr>wb_list_head = None, wb_file = file, wb_cred = cred, wb_page = page,
                   wb_timeout = jiffies + (if locked then NFS_WRITEBACK_LOCKDELAY k
                                           else NFS_WRITEBACK_DELAY k),
                   wb_offset = offset, wb_bytes = count, wb_count = 1, wb_flags = 0,
                   wb_verf = \<lparr>committed = NFS_UNSTABLE, verifier = (0, 0)\<rparr>\<rparr>),
               cache_nr_requests := cache_nr_requests s' + 1,
               nfs_nr_requests := nfs_nr_requests s' + 1\<rparr>))"

subsection \<open>Completion of a WRITE call\<close>

text \<open>
  The body of the loop of \<^verbatim>\<open>nfs_writeback_done\<close> for the request at the head of the
  \<^verbatim>\<open>pages\<close> list, with \<^verbatim>\<open>CONFIG_NFS_V3\<close> set: \<open>status\<close> is \<^verbatim>\<open>task->tk_status\<close>
  and \<open>verf\<close> is what \<^verbatim>\<open>resp->verf\<close> points to.
\<close>

definition writeback_one ::
    "nfs_consts \<Rightarrow> int \<Rightarrow> nfs_writeverf \<Rightarrow> ulong \<Rightarrow> nat \<Rightarrow> nfs_state \<Rightarrow> nfs_state" where
  "writeback_one k status verf jiffies req s0 =
     (let s = nfs_list_remove_request req s0
      in nfs_unlock_request req
           (if status < 0
            then nfs_inode_remove_request req
                   (s\<lparr>f_error := (f_error s)(wb_file (reqs s req) := status)\<rparr>)
            else if committed verf \<noteq> NFS_UNSTABLE
            then nfs_inode_remove_request req s
            else nfs_mark_request_commit req
                   (upd_req req (\<lambda>q. q\<lparr>wb_verf := verf,
                                         wb_timeout := jiffies + NFS_COMMIT_DELAY k\<rparr>) s)))"

function writeback_loop ::
    "nfs_consts \<Rightarrow> int \<Rightarrow> nfs_writeverf \<Rightarrow> ulong \<Rightarrow> nfs_state \<Rightarrow> nfs_state" where
  "writeback_loop k status verf jiffies s =
     (case lists s PAGES of
        [] \<Rightarrow> s
      | req # rest \<Rightarrow> writeback_loop k status verf jiffies (writeback_one k status verf jiffies req s))"
  by pat_completeness auto
termination
proof (relation "measure (\<lambda>(k, status, verf, jiffies, s). length (lists s PAGES))", goal_cases)
  case 1
  show ?case by simp
next
  case (2 k status verf jiffies s req rest)
  have empty_iff: "wb_list_empty s r \<longleftrightarrow> (\<forall>h. r \<notin> set (lists s h))" for s r
  proof
    assume a: "wb_list_empty s r"
    show "\<forall>h. r \<notin> set (lists s h)"
    proof
      fix h show "r \<notin> set (lists s h)"
        using a by (cases h) (simp_all add: wb_list_empty_def all_heads_def)
    qed
  next
    assume "\<forall>h. r \<notin> set (lists s h)"
    then show "wb_list_empty s r"
      by (simp add: wb_list_empty_def all_heads_def)
  qed
  have rm: "lists (nfs_list_remove_request r s) = (\<lambda>h. removeAll r (lists s h))" for r s
  proof (cases "wb_list_empty s r")
    case True
    then have "\<And>h. removeAll r (lists s h) = lists s h"
      by (simp add: empty_iff)
    with True show ?thesis
      by (simp add: nfs_list_remove_request_def)
  next
    case False
    then show ?thesis
      by (simp add: nfs_list_remove_request_def upd_req_def)
  qed
  have rel: "length (lists (nfs_release_request r s) h) \<le> length (lists s h)"
    and unh: "length (lists (nfs_inode_remove_request r s) h) \<le> length (lists s h)" for r s h
  proof (induction r s and r s rule: nfs_release_request_nfs_inode_remove_request.induct)
    case (1 r s)
    define s1 where "s1 = upd_req r (\<lambda>q. q\<lparr>wb_count := wb_count q - 1\<rparr>) s"
    define s2 where "s2 = (if \<not> wb_list_empty s1 r then nfs_list_remove_request r s1 else s1)"
    define s3 where "s3 = (if \<not> wb_hash_empty s2 r then nfs_inode_remove_request r s2 else s2)"
    have l1: "lists s1 = lists s"
      by (simp add: s1_def upd_req_def)
    have l2: "length (lists s2 h) \<le> length (lists s h)"
      by (simp add: s2_def rm l1 length_removeAll_less_eq)
    show ?case
    proof (cases "wb_count (reqs s1 r) \<noteq> 0")
      case True
      then show ?thesis
        by (simp add: Let_def s1_def [symmetric] l1 del: nfs_inode_remove_request.simps)
    next
      case False
      have l3: "length (lists s3 h) \<le> length (lists s2 h)"
        using "1.IH" [OF s1_def False s2_def] by (simp add: s3_def del: nfs_inode_remove_request.simps nfs_release_request.simps)
      have "nfs_release_request r s =
              s3\<lparr>freed := r # freed s3, cache_nr_requests := cache_nr_requests s3 - 1,
                 nfs_nr_requests := nfs_nr_requests s3 - 1,
                 request_wakeups := Suc (request_wakeups s3)\<rparr>"
        using False
        by (simp add: Let_def s1_def [symmetric] s2_def [symmetric] s3_def [symmetric]
                 del: nfs_inode_remove_request.simps)
      then have "lists (nfs_release_request r s) = lists s3"
        by simp
      with l2 l3 show ?thesis
        by simp
    qed
  next
    case (2 r s)
    show ?case
    proof (cases "wb_hash_empty s r")
      case True
      then show ?thesis by (simp del: nfs_release_request.simps)
    next
      case False
      with "2.IH" show ?thesis
        by (simp del: nfs_release_request.simps)
    qed
  qed
  have unl: "length (lists (nfs_unlock_request r s) h) \<le> length (lists s h)" for r s h
    using rel [of r "(upd_req r (\<lambda>q. q\<lparr>wb_flags := wb_flags q AND NOT PG_BUSY\<rparr>) s)\<lparr>woken := r # woken s\<rparr>" h]
    by (simp add: nfs_unlock_request_def upd_req_def del: nfs_release_request.simps)
  have mc: "lists (nfs_mark_request_commit r s) PAGES = lists s PAGES" for r s
    by (simp add: nfs_mark_request_commit_def nfs_list_add_request_def upd_req_def)
  let ?s = "nfs_list_remove_request req s"
  from 2 have "req \<in> set (lists s PAGES)"
    by simp
  then have less: "length (lists ?s PAGES) < length (lists s PAGES)"
    by (simp add: rm length_removeAll_less)
  have "length (lists (writeback_one k status verf jiffies req s) PAGES) \<le> length (lists ?s PAGES)"
    unfolding writeback_one_def Let_def
    by (rule order_trans [OF unl]) (auto intro: order_trans [OF unh] simp: mc upd_req_def simp del: nfs_inode_remove_request.simps nfs_release_request.simps)
  with less show ?case
    by simp
qed

text \<open>
  \<^verbatim>\<open>nfs_writeback_done\<close>: a call that wrote less than asked for is turned into
  \<^verbatim>\<open>-EIO\<close> before the loop. The refresh of the inode's attributes and the release of
  the call data are outside the state kept here.
\<close>

definition nfs_writeback_done ::
    "nfs_consts \<Rightarrow> int \<Rightarrow> u32 \<Rightarrow> u32 \<Rightarrow> nfs_writeverf \<Rightarrow> ulong \<Rightarrow> nfs_state \<Rightarrow> nfs_state" where
  "nfs_writeback_done k tk_status resp_count argp_count verf jiffies s =
     (let status = (if resp_count < argp_count \<and> 0 \<le> tk_status then - EIO k else tk_status)
      in writeback_loop k status verf jiffies s)"

subsection \<open>Completion of a COMMIT call\<close>

text \<open>
  The body of the loop of \<^verbatim>\<open>nfs_commit_done\<close>; \<open>verf\<close> is \<^verbatim>\<open>data->verf\<close>, whose
  verifier is compared with the one stored in the request.
\<close>

definition commit_one :: "int \<Rightarrow> nfs_writeverf \<Rightarrow> nat \<Rightarrow> nfs_state \<Rightarrow> nfs_state" where
  "commit_one status verf req s0 =
     (let s = nfs_list_remove_request req s0
      in nfs_unlock_request req
           (if status < 0
            then nfs_inode_remove_request req
                   (s\<lparr>f_error := (f_error s)(wb_file (reqs s req) := status)\<rparr>)
            else if verifier (wb_verf (reqs s req)) = verifier verf
            then nfs_inode_remove_request req s
            else nfs_mark_request_dirty req s))"

function commit_loop ::
    "int \<Rightarrow> nfs_writeverf \<Rightarrow> nfs_state \<Rightarrow> nfs_state" where
  "commit_loop status verf s =
     (case lists s PAGES of
        [] \<Rightarrow> s
      | req # rest \<Rightarrow> commit_loop status verf (commit_one status verf req s))"
  by pat_completeness auto
termination
proof (relation "measure (\<lambda>(status, verf, s). length (lists s PAGES))", goal_cases)
  case 1
  show ?case by simp
next
  case (2 status verf s req rest)
  have empty_iff: "wb_list_empty s r \<longleftrightarrow> (\<forall>h. r \<notin> set (lists s h))" for s r
  proof
    assume a: "wb_list_empty s r"
    show "\<forall>h. r \<notin> set (lists s h)"
    proof
      fix h show "r \<notin> set (lists s h)"
        using a by (cases h) (simp_all add: wb_list_empty_def all_heads_def)
    qed
  next
    assume "\<forall>h. r \<notin> set (lists s h)"
    then show "wb_list_empty s r"
      by (simp add: wb_list_empty_def all_heads_def)
  qed
  have rm: "lists (nfs_list_remove_request r s) = (\<lambda>h. removeAll r (lists s h))" for r s
  proof (cases "wb_list_empty s r")
    case True
    then have "\<And>h. removeAll r (lists s h) = lists s h"
      by (simp add: empty_iff)
    with True show ?thesis
      by (simp add: nfs_list_remove_request_def)
  next
    case False
    then show ?thesis
      by (simp add: nfs_list_remove_request_def upd_req_def)
  qed
  have rel: "length (lists (nfs_release_request r s) h) \<le> length (lists s h)"
    and unh: "length (lists (nfs_inode_remove_request r s) h) \<le> length (lists s h)" for r s h
  proof (induction r s and r s rule: nfs_release_request_nfs_inode_remove_request.induct)
    case (1 r s)
    define s1 where "s1 = upd_req r (\<lambda>q. q\<lparr>wb_count := wb_count q - 1\<rparr>) s"
    define s2 where "s2 = (if \<not> wb_list_empty s1 r then nfs_list_remove_request r s1 else s1)"
    define s3 where "s3 = (if \<not> wb_hash_empty s2 r then nfs_inode_remove_request r s2 else s2)"
    have l1: "lists s1 = lists s"
      by (simp add: s1_def upd_req_def)
    have l2: "length (lists s2 h) \<le> length (lists s h)"
      by (simp add: s2_def rm l1 length_removeAll_less_eq)
    show ?case
    proof (cases "wb_count (reqs s1 r) \<noteq> 0")
      case True
      then show ?thesis
        by (simp add: Let_def s1_def [symmetric] l1 del: nfs_inode_remove_request.simps)
    next
      case False
      have l3: "length (lists s3 h) \<le> length (lists s2 h)"
        using "1.IH" [OF s1_def False s2_def] by (simp add: s3_def del: nfs_inode_remove_request.simps nfs_release_request.simps)
      have "nfs_release_request r s =
              s3\<lparr>freed := r # freed s3, cache_nr_requests := cache_nr_requests s3 - 1,
                 nfs_nr_requests := nfs_nr_requests s3 - 1,
                 request_wakeups := Suc (request_wakeups s3)\<rparr>"
        using False
        by (simp add: Let_def s1_def [symmetric] s2_def [symmetric] s3_def [symmetric]
                 del: nfs_inode_remove_request.simps)
      then have "lists (nfs_release_request r s) = lists s3"
        by simp
      with l2 l3 show ?thesis
        by simp
    qed
  next
    case (2 r s)
    show ?case
    proof (cases "wb_hash_empty s r")
      case True
      then show ?thesis by (simp del: nfs_release_request.simps)
    next
      case False
      with "2.IH" show ?thesis
        by (simp del: nfs_release_request.simps)
    qed
  qed
  have unl: "length (lists (nfs_unlock_request r s) h) \<le> length (lists s h)" for r s h
    using rel [of r "(upd_req r (\<lambda>q. q\<lparr>wb_flags := wb_flags q AND NOT PG_BUSY\<rparr>) s)\<lparr>woken := r # woken s\<rparr>" h]
    by (simp add: nfs_unlock_request_def upd_req_def del: nfs_release_request.simps)
  have mc: "lists (nfs_mark_request_dirty r s) PAGES = lists s PAGES" for r s
    by (simp add: nfs_mark_request_dirty_def nfs_list_add_request_def upd_req_def)
  let ?s = "nfs_list_remove_request req s"
  from 2 have "req \<in> set (lists s PAGES)"
    by simp
  then have less: "length (lists ?s PAGES) < length (lists s PAGES)"
    by (simp add: rm length_removeAll_less)
  have "length (lists (commit_one status verf req s) PAGES) \<le> length (lists ?s PAGES)"
    unfolding commit_one_def Let_def
    by (rule order_trans [OF unl]) (auto intro: order_trans [OF unh] simp: mc upd_req_def simp del: nfs_inode_remove_request.simps nfs_release_request.simps)
  with less show ?case
    by simp
qed

definition nfs_commit_done :: "int \<Rightarrow> nfs_writeverf \<Rightarrow> nfs_state \<Rightarrow> nfs_state" where
  "nfs_commit_done tk_status verf s = commit_loop tk_status verf s"

subsection \<open>Updating a request\<close>

datatype error = ENOMEM | EBUSY

text \<open>
  \<^verbatim>\<open>_nfs_find_request\<close>, the body of \<^verbatim>\<open>nfs_find_request\<close>: the first request on the
  inode's writeback list with the page index of the page, with one more reference.
\<close>

definition nfs_find_request :: "nat \<Rightarrow> nfs_state \<Rightarrow> nat option \<times> nfs_state" where
  "nfs_find_request page s =
     (case find (\<lambda>r. req_index s r = page_index s page) (writeback s) of
        None \<Rightarrow> (None, s)
      | Some r \<Rightarrow> (Some r, upd_req r (\<lambda>q. q\<lparr>wb_count := wb_count q + 1\<rparr>) s))"

text \<open>
  \<^verbatim>\<open>nfs_wait_on_request\<close>: the caller sleeps until the request is unlocked; what the
  other tasks do to the state meanwhile is the argument \<open>others\<close>.
\<close>

definition nfs_wait_on_request :: "nat \<Rightarrow> (nfs_state \<Rightarrow> nfs_state) \<Rightarrow> nfs_state \<Rightarrow> nfs_state" where
  "nfs_wait_on_request r others s =
     (if \<not> NFS_WBACK_BUSY (reqs s r) then s
      else nfs_release_request r
             (others (upd_req r (\<lambda>q. q\<lparr>wb_count := wb_count q + 1\<rparr>) s)))"

text \<open>
  What one pass of the \<^verbatim>\<open>for\<close> loop of \<^verbatim>\<open>nfs_update_request\<close> that does not leave
  the loop meets: the other tasks' effect while it waits on a locked request, or the
  passes of \<^verbatim>\<open>nfs_create_request\<close>. A run with too few of them is still in the loop.
\<close>

record update_pass =
  wait_effect :: "nfs_state \<Rightarrow> nfs_state"
  create_passes :: "create_pass list"

fun update_find ::
    "nfs_consts \<Rightarrow> nat \<Rightarrow> nat \<Rightarrow> ulong \<Rightarrow> u32 \<Rightarrow> bool \<Rightarrow> ulong \<Rightarrow> nat \<Rightarrow> update_pass list \<Rightarrow>
     nat option \<Rightarrow> nfs_state \<Rightarrow> ((error + nat) \<times> nfs_state) option" where
  "update_find k file page offset bytes locked jiffies cred ps new s =
     (case nfs_find_request page s of
        (Some req, s1) \<Rightarrow>
          (case nfs_lock_request req s1 of
             (True, s2) \<Rightarrow>
               Some (Inr req, case new of None \<Rightarrow> s2 | Some n \<Rightarrow> nfs_release_request n s2)
           | (False, s2) \<Rightarrow>
               (case ps of
                  [] \<Rightarrow> None
                | p # ps' \<Rightarrow>
                    update_find k file page offset bytes locked jiffies cred ps' new
                      (nfs_release_request req
                         (nfs_wait_on_request req (wait_effect p) s2))))
      | (None, s1) \<Rightarrow>
          (case new of
             Some n \<Rightarrow>
               Some (Inr n,
                 nfs_mark_request_dirty n
                   (nfs_inode_add_request n (snd (nfs_lock_request n s1))))
           | None \<Rightarrow>
               (case ps of
                  [] \<Rightarrow> None
                | p # ps' \<Rightarrow>
                    (case nfs_create_request k file page offset bytes locked jiffies cred
                            (create_passes p) s1 of
                       None \<Rightarrow> None
                     | Some (None, s2) \<Rightarrow> Some (Inl ENOMEM, s2)
                     | Some (Some n, s2) \<Rightarrow>
                         update_find k file page offset bytes locked jiffies cred ps'
                           (Some n) s2))))"

text \<open>The part of \<^verbatim>\<open>nfs_update_request\<close> after the loop, for the request found.\<close>

definition update_region ::
    "nat \<Rightarrow> nat \<Rightarrow> ulong \<Rightarrow> u32 \<Rightarrow> nat \<Rightarrow> nfs_state \<Rightarrow> (error + nat) \<times> nfs_state" where
  "update_region file page offset bytes req s =
     (let rqend = wb_offset (reqs s req) + wb_bytes (reqs s req);
          end = offset + bytes
      in if wb_file (reqs s req) \<noteq> file \<or> wb_page (reqs s req) \<noteq> page
            \<or> \<not> nfs_dirty_request s req
            \<or> rqend < offset \<or> end < wb_offset (reqs s req)
         then (Inl EBUSY, nfs_release_request req (nfs_unlock_request req s))
         else
           let s1 = (if offset < wb_offset (reqs s req)
                     then upd_req req (\<lambda>q. q\<lparr>wb_offset := offset,
                                               wb_bytes := rqend - offset\<rparr>) s
                     else s);
               s2 = (if rqend < end
                     then upd_req req (\<lambda>q. q\<lparr>wb_bytes := end - wb_offset q\<rparr>) s1
                     else s1)
           in (Inr req, nfs_unlock_request req s2))"

definition nfs_update_request ::
    "nfs_consts \<Rightarrow> nat \<Rightarrow> nat \<Rightarrow> ulong \<Rightarrow> u32 \<Rightarrow> bool \<Rightarrow> ulong \<Rightarrow> nat \<Rightarrow> update_pass list \<Rightarrow>
     nfs_state \<Rightarrow> ((error + nat) \<times> nfs_state) option" where
  "nfs_update_request k file page offset bytes locked jiffies cred ps s =
     (case update_find k file page offset bytes locked jiffies cred ps None s of
        None \<Rightarrow> None
      | Some (Inl e, s') \<Rightarrow> Some (Inl e, s')
      | Some (Inr req, s') \<Rightarrow> Some (update_region file page offset bytes req s'))"

subsection \<open>Shapes of lists and batches\<close>

text \<open>
  A list is \<open>queued\<close> when no request is on it twice and each of its requests is hashed
  on the inode; it is \<open>ascending\<close> when the page indices grow strictly along it, as the
  sorted insertion of \<^verbatim>\<open>nfs_list_add_request\<close> leaves it.
\<close>

definition queued :: "nfs_state \<Rightarrow> list_head \<Rightarrow> bool" where
  "queued s src =
     (distinct (lists s src) \<and> list_all (\<lambda>r. r \<in> set (writeback s)) (lists s src))"

definition ascending :: "nfs_state \<Rightarrow> nat list \<Rightarrow> bool" where
  "ascending s xs = sorted_wrt (\<lambda>a b. req_index s a < req_index s b) xs"


text \<open>
  What the loop of \<^verbatim>\<open>coalesce_requests\<close> has checked between two neighbours of a batch:
  the first ends at the end of its page, the second passed the three tests against it.
\<close>

definition page_end :: "nfs_consts \<Rightarrow> nfs_state \<Rightarrow> nat \<Rightarrow> bool" where
  "page_end k s r = (wb_offset (reqs s r) + wb_bytes (reqs s r) = PAGE_CACHE_SIZE k)"

fun batch_chain :: "nfs_consts \<Rightarrow> nfs_state \<Rightarrow> nat list \<Rightarrow> bool" where
  "batch_chain k s (x # y # zs) =
     (page_end k s x \<and> \<not> coalesce_stop s (Some x) y \<and> batch_chain k s (y # zs))"
| "batch_chain k s [x] = True"
| "batch_chain k s [] = True"

text \<open>
  \<open>only r s s'\<close>: the state \<open>s'\<close> differs from \<open>s\<close> in nothing but the request \<open>r\<close>, its
  place on the lists, and the counters; the file and page of \<open>r\<close> are as before.
\<close>

definition only :: "nat \<Rightarrow> nfs_state \<Rightarrow> nfs_state \<Rightarrow> bool" where
  "only r s s' =
     ((\<forall>r'. r' \<noteq> r \<longrightarrow> reqs s' r' = reqs s r')
      \<and> (\<forall>h. removeAll r (lists s' h) = removeAll r (lists s h))
      \<and> removeAll r (writeback s') = removeAll r (writeback s)
      \<and> page_index s' = page_index s
      \<and> wb_file (reqs s' r) = wb_file (reqs s r)
      \<and> wb_page (reqs s' r) = wb_page (reqs s r))"

text \<open>
  \<open>shrunk r s s'\<close>: on the way from \<open>s\<close> to \<open>s'\<close> the request \<open>r\<close> was at most taken
  off the lists and off the inode's writeback list; its flags and the files' errors are
  as before.
\<close>

definition shrunk :: "nat \<Rightarrow> nfs_state \<Rightarrow> nfs_state \<Rightarrow> bool" where
  "shrunk r s s' =
     ((lists s' = lists s \<or> lists s' = (\<lambda>h. removeAll r (lists s h)))
      \<and> (writeback s' = writeback s \<or> writeback s' = removeAll r (writeback s))
      \<and> wb_flags (reqs s' r) = wb_flags (reqs s r)
      \<and> f_error s' = f_error s)"

text \<open>A request that is gone: unhashed, on no list, and unlocked.\<close>

definition gone :: "nfs_state \<Rightarrow> nat \<Rightarrow> bool" where
  "gone s r = (r \<notin> set (writeback s) \<and> wb_list_empty s r \<and> \<not> NFS_WBACK_BUSY (reqs s r))"

text \<open>\<open>same_req r s s'\<close>: the request \<open>r\<close> and its places are the same in both states.\<close>

definition same_req :: "nat \<Rightarrow> nfs_state \<Rightarrow> nfs_state \<Rightarrow> bool" where
  "same_req r s s' =
     (reqs s' r = reqs s r
      \<and> (\<forall>h. r \<in> set (lists s' h) \<longleftrightarrow> r \<in> set (lists s h))
      \<and> (r \<in> set (writeback s') \<longleftrightarrow> r \<in> set (writeback s)))"


text \<open>No request is on a list twice, and no request is on two lists.\<close>

definition single :: "nfs_state \<Rightarrow> bool" where
  "single s =
     list_all (\<lambda>h. distinct (lists s h)
                 \<and> list_all (\<lambda>h'. h = h' \<or> set (lists s h) \<inter> set (lists s h') = {}) all_heads)
       all_heads"

text \<open>
  The other tasks that run while \<^verbatim>\<open>nfs_update_request\<close> sleeps are state transformers
  of the passes. \<open>keeps_single f\<close>: the transformer \<open>f\<close> leaves a state with single
  membership in such a state; \<open>single_passes ps\<close>: every transformer of the passes does.
\<close>

definition keeps_single :: "(nfs_state \<Rightarrow> nfs_state) \<Rightarrow> bool" where
  "keeps_single f = (\<forall>s. single s \<longrightarrow> single (f s))"

definition single_passes :: "update_pass list \<Rightarrow> bool" where
  "single_passes ps =
     (\<forall>p \<in> set ps. keeps_single (wait_effect p)
        \<and> (\<forall>e \<in> set (create_passes p).
              keeps_single (wb_file_effect e) \<and> keeps_single (sleep_effect e)))"

text \<open>What \<^verbatim>\<open>coalesce_requests\<close> reads of a request: file, page index, offset, length.\<close>

definition req_span :: "nfs_state \<Rightarrow> nat \<Rightarrow> nat \<times> ulong \<times> u32 \<times> u32" where
  "req_span s r = (wb_file (reqs s r), req_index s r, wb_offset (reqs s r), wb_bytes (reqs s r))"

subsection \<open>Writing a page synchronously\<close>

text \<open>
  \<^verbatim>\<open>nfs_writepage_sync\<close> writes \<^verbatim>\<open>count\<close> bytes in chunks of at most \<^verbatim>\<open>wsize\<close>
  bytes. Each call of \<^verbatim>\<open>nfs_proc_write\<close> is answered by the server; the answers are
  given as a list, one per call, and a run that needs more answers than the list holds
  has not returned (\<open>None\<close>). The variables of the function are the fields of
  \<open>wsync\<close>; \<^verbatim>\<open>written\<close> is a C \<^verbatim>\<open>int\<close>, kept as a word and read with \<open>sint\<close>.
\<close>

record wsync =
  ws_wsize :: u32
  ws_count :: u32
  ws_offset :: ulong
  ws_written :: u32
  ws_result :: int
  ws_refresh :: bool
  ws_i_size :: int
  ws_uptodate :: bool

text \<open>The fallback \<^verbatim>\<open>#define IS_SWAPFILE(inode) (0)\<close> of the file.\<close>

definition IS_SWAPFILE :: bool where
  "IS_SWAPFILE = False"

text \<open>
  One pass of the \<^verbatim>\<open>do\<close> loop: the chunk size is clamped to what is left, then the
  call either fails (the page is marked invalid and the loop is left) or its bytes are
  accounted for.
\<close>

definition chunk_wsize :: "wsync \<Rightarrow> u32" where
  "chunk_wsize st =
     (if ws_count st < ws_wsize st \<and> \<not> IS_SWAPFILE then ws_count st else ws_wsize st)"

definition chunk_failed :: "int \<Rightarrow> wsync \<Rightarrow> wsync" where
  "chunk_failed result st =
     st\<lparr>ws_wsize := chunk_wsize st, ws_result := result, ws_uptodate := False\<rparr>"

definition chunk_written :: "int \<Rightarrow> wsync \<Rightarrow> wsync" where
  "chunk_written result st =
     (let wsize = chunk_wsize st;
          offset = ws_offset st + wsize
      in st\<lparr>ws_wsize := wsize, ws_result := result, ws_refresh := True,
             ws_offset := offset,
             ws_written := ws_written st + wsize,
             ws_count := ws_count st - wsize,
             ws_i_size := (if uint offset > ws_i_size st then uint offset
                           else ws_i_size st)\<rparr>)"

fun writepage_loop :: "int list \<Rightarrow> wsync \<Rightarrow> wsync option" where
  "writepage_loop [] st = None"
| "writepage_loop (result # rs) st =
     (if result < 0 then Some (chunk_failed result st)
      else let st' = chunk_written result st
           in if ws_count st' \<noteq> 0 then writepage_loop rs st' else Some st')"

text \<open>
  The arguments: the server's \<^verbatim>\<open>wsize\<close>, \<^verbatim>\<open>PAGE_CACHE_SHIFT\<close>, the page's index,
  the inode's size, whether the page is up to date, \<^verbatim>\<open>offset\<close>, \<^verbatim>\<open>count\<close> and
  the server's answers. The result is the returned \<^verbatim>\<open>int\<close> with the final variables.
\<close>

definition nfs_writepage_sync ::
    "u32 \<Rightarrow> nat \<Rightarrow> ulong \<Rightarrow> int \<Rightarrow> bool \<Rightarrow> ulong \<Rightarrow> u32 \<Rightarrow> int list \<Rightarrow> (int \<times> wsync) option" where
  "nfs_writepage_sync wsize shift pg_index i_size uptodate offset count rs =
     (case writepage_loop rs
             \<lparr>ws_wsize = wsize, ws_count = count,
              ws_offset = offset + push_bit shift pg_index,
              ws_written = 0, ws_result = 0, ws_refresh = False,
              ws_i_size = i_size, ws_uptodate = uptodate\<rparr> of
        None \<Rightarrow> None
      | Some st \<Rightarrow>
          Some (if ws_written st \<noteq> 0 then sint (ws_written st) else ws_result st, st))"

subsection \<open>Example states\<close>

definition ex_page :: nfs_page where
  "ex_page = \<lparr>wb_list_head = None, wb_file = 7, wb_cred = 0, wb_page = 0,
     wb_timeout = 0, wb_offset = 0, wb_bytes = 4096, wb_count = 1, wb_flags = 0,
     wb_verf = \<lparr>committed = NFS_UNSTABLE, verifier = (0, 0)\<rparr>\<rparr>"

definition ex_state :: nfs_state where
  "ex_state = \<lparr>reqs = (\<lambda>_. ex_page), lists = (\<lambda>_. []), writeback = [],
     npages = 0, ndirty = 0, ncommit = 0, page_index = (\<lambda>p. of_nat p),
     f_error = (\<lambda>_. 0), nfs_nr_requests = 0, cache_nr_requests = 0,
     freed = [], woken = [], request_wakeups = 0\<rparr>"

definition ex_consts :: nfs_consts where
  "ex_consts = \<lparr>MAX_REQUEST_SOFT = 192, MAX_REQUEST_HARD = 256,
     NFS_WRITEBACK_DELAY = 500, NFS_WRITEBACK_LOCKDELAY = 6000, NFS_COMMIT_DELAY = 500,
     PAGE_CACHE_SIZE = 4096, PAGE_CACHE_SHIFT = 12, EIO = 5, mount_intr = False\<rparr>"

text \<open>A pass during which nothing else happens, and one during which one request retires.\<close>

definition quiet_pass :: create_pass where
  "quiet_pass = \<lparr>wb_file_effect = (\<lambda>s. s), alloc_result = Some 5,
     sleep_effect = (\<lambda>s. s), signalled = False\<rparr>"

definition retiring_pass :: create_pass where
  "retiring_pass = \<lparr>wb_file_effect = (\<lambda>s. s), alloc_result = Some 5,
     sleep_effect = (\<lambda>s. s\<lparr>nfs_nr_requests := nfs_nr_requests s - 1\<rparr>), signalled = False\<rparr>"

definition full_state :: nfs_state where
  "full_state = ex_state\<lparr>nfs_nr_requests := 256, cache_nr_requests := 256\<rparr>"

text \<open>
  Two requests of one file on neighbouring pages, queued on the local list of a flush:
  the first covers its page from byte 100 to the end, the second covers its whole page.
\<close>

definition two_state :: nfs_state where
  "two_state = ex_state
     \<lparr>reqs := (\<lambda>_. ex_page)
         (1 := ex_page\<lparr>wb_list_head := Some HEAD, wb_page := 0, wb_offset := 100,
                        wb_bytes := 3996, wb_count := 2, wb_flags := 1\<rparr>,
          2 := ex_page\<lparr>wb_list_head := Some HEAD, wb_page := 1, wb_count := 2,
                        wb_flags := 1\<rparr>),
      lists := (\<lambda>_. [])(HEAD := [1, 2]),
      writeback := [2, 1],
      npages := 2, nfs_nr_requests := 2, cache_nr_requests := 2\<rparr>"



text \<open>
  Two requests of file 7 in flight on the \<^verbatim>\<open>pages\<close> list of a call, with different
  stored verifiers; the file already has the error \<open>-5\<close> recorded.
\<close>

definition batch_state :: nfs_state where
  "batch_state = ex_state
     \<lparr>reqs := (\<lambda>_. ex_page)
         (1 := ex_page\<lparr>wb_list_head := Some PAGES, wb_page := 0, wb_count := 2, wb_flags := 1,
                        wb_verf := \<lparr>committed = NFS_UNSTABLE, verifier = (0, 1)\<rparr>\<rparr>,
          2 := ex_page\<lparr>wb_list_head := Some PAGES, wb_page := 1, wb_count := 2, wb_flags := 1,
                        wb_verf := \<lparr>committed = NFS_UNSTABLE, verifier = (0, 2)\<rparr>\<rparr>),
      lists := (\<lambda>_. [])(PAGES := [1, 2]),
      writeback := [2, 1],
      npages := 2,
      f_error := (\<lambda>_. 0)(7 := - 5),
      nfs_nr_requests := 2, cache_nr_requests := 2\<rparr>"

definition server_verf :: nfs_writeverf where
  "server_verf = \<lparr>committed = NFS_FILE_SYNC, verifier = (0, 1)\<rparr>"

text \<open>One dirty request of file 7 on page 0, covering the first 100 bytes of the page.\<close>

definition dirty_state :: nfs_state where
  "dirty_state = ex_state
     \<lparr>reqs := (\<lambda>_. ex_page)
         (1 := ex_page\<lparr>wb_list_head := Some DIRTY, wb_page := 0, wb_bytes := 100\<rparr>),
      lists := (\<lambda>_. [])(DIRTY := [1]),
      writeback := [1],
      npages := 1, ndirty := 1, nfs_nr_requests := 1, cache_nr_requests := 1\<rparr>"

section \<open>Unlocking a request that is not locked\<close>

text \<open>
  C9. For a request whose busy flag is clear, \<^verbatim>\<open>nfs_unlock_request\<close> changes nothing:
  the whole state after the call is the state before it, so the flag stays clear, no
  waiter is woken, the reference count is not decremented and the request is not freed.
\<close>

theorem nfs_unlock_request_not_busy:
  "\<not> NFS_WBACK_BUSY (reqs s r) \<Longrightarrow>
     nfs_unlock_request r s = s \<and>
     \<not> NFS_WBACK_BUSY (reqs (nfs_unlock_request r s) r) \<and>
     woken (nfs_unlock_request r s) = woken s \<and>
     wb_count (reqs (nfs_unlock_request r s) r) = wb_count (reqs s r) \<and>
     freed (nfs_unlock_request r s) = freed s"
  by (simp add: nfs_unlock_request_def)

theorem nfs_unlock_request_not_busy_witness:
  "\<not> NFS_WBACK_BUSY (reqs ex_state 1) \<and> nfs_unlock_request 1 ex_state = ex_state \<and>
   wb_count (reqs (nfs_unlock_request 1 ex_state) 1) = 1"
  using nfs_unlock_request_not_busy [of ex_state 1]
  by (simp add: NFS_WBACK_BUSY_def ex_state_def ex_page_def PG_BUSY_def)

section \<open>The synchronous page write\<close>

lemma unat_add_small: "unat (a::u32) + unat b < 2 ^ 31 \<Longrightarrow> unat (a + b) = unat a + unat b"
  by (simp add: unat_add_lem [THEN iffD1])

lemma sint_small: "unat (w::u32) < 2 ^ 31 \<Longrightarrow> sint w = int (unat w)"
proof -
  assume a: "unat w < 2 ^ 31"
  have lt: "uint w < 2 ^ 31"
    using a by (simp add: unat_eq_nat_uint nat_less_iff del: nat_uint_eq)
  have ge: "- (2 ^ 31) \<le> uint w"
    by (rule order_trans [of _ 0]) simp_all
  have "signed_take_bit 31 (uint w) = uint w"
    using ge lt by (rule signed_take_bit_int_eq_self)
  then show ?thesis by (simp add: sint_uint)
qed

lemma chunk_wsize_le: "unat (chunk_wsize st) \<le> unat (ws_count st)"
  by (auto simp: chunk_wsize_def IS_SWAPFILE_def word_le_nat_alt word_less_nat_alt)

lemma chunk_written_count:
  "unat (ws_count (chunk_written result st)) = unat (ws_count st) - unat (chunk_wsize st)"
  using chunk_wsize_le [of st]
  by (simp add: chunk_written_def Let_def unat_sub word_le_nat_alt)

lemma chunk_written_written:
  "unat (ws_written st) + unat (ws_count st) < 2 ^ 31 \<Longrightarrow>
     unat (ws_written (chunk_written result st)) = unat (ws_written st) + unat (chunk_wsize st)"
  using chunk_wsize_le [of st]
  by (simp add: chunk_written_def Let_def unat_add_small)

lemma chunk_wsize_pos:
  "0 < ws_wsize st \<Longrightarrow> 0 < ws_count st \<Longrightarrow> 0 < unat (chunk_wsize st)"
  by (auto simp: chunk_wsize_def unat_gt_0)

text \<open>
  Along the loop the bytes written and the bytes left add up to the same total, and the
  bytes written never decrease.
\<close>

lemma writepage_loop_inv:
  "writepage_loop rs st = Some st' \<Longrightarrow> unat (ws_written st) + unat (ws_count st) < 2 ^ 31 \<Longrightarrow>
     unat (ws_written st') + unat (ws_count st') = unat (ws_written st) + unat (ws_count st)
     \<and> unat (ws_written st) \<le> unat (ws_written st')"
proof (induction rs arbitrary: st)
  case Nil
  then show ?case by simp
next
  case (Cons result rs)
  note small = Cons.prems(2)
  show ?case
  proof (cases "result < 0")
    case True
    with Cons.prems(1) show ?thesis
      by (auto simp: chunk_failed_def)
  next
    case False
    let ?st = "chunk_written result st"
    have step: "unat (ws_written ?st) + unat (ws_count ?st) =
                unat (ws_written st) + unat (ws_count st)"
      using chunk_wsize_le [of st]
      by (simp add: chunk_written_count chunk_written_written [OF small])
    have mono: "unat (ws_written st) \<le> unat (ws_written ?st)"
      by (simp add: chunk_written_written [OF small])
    show ?thesis
    proof (cases "ws_count ?st \<noteq> 0")
      case True
      with False Cons.prems(1) have run: "writepage_loop rs ?st = Some st'"
        by (simp add: Let_def)
      have "unat (ws_written ?st) + unat (ws_count ?st) < 2 ^ 31"
        using step small by simp
      from Cons.IH [OF run this] step mono show ?thesis
        by simp
    next
      case fin: False
      with False Cons.prems(1) have "st' = ?st"
        by (simp add: Let_def)
      with step mono show ?thesis by simp
    qed
  qed
qed

text \<open>A first chunk that the server accepts leaves a positive number of bytes written.\<close>

lemma writepage_loop_first:
  assumes run: "writepage_loop (r0 # rs) st = Some st'"
    and ok: "0 \<le> r0" and w: "0 < ws_wsize st" and c: "0 < ws_count st"
    and small: "unat (ws_written st) + unat (ws_count st) < 2 ^ 31"
  shows "unat (ws_written st) < unat (ws_written st')"
proof -
  let ?st = "chunk_written r0 st"
  have first: "unat (ws_written st) < unat (ws_written ?st)"
    using chunk_wsize_pos [OF w c] by (simp add: chunk_written_written [OF small])
  show ?thesis
  proof (cases "ws_count ?st \<noteq> 0")
    case True
    with ok run have rest: "writepage_loop rs ?st = Some st'"
      by (simp add: Let_def)
    have "unat (ws_written ?st) + unat (ws_count ?st) < 2 ^ 31"
      using chunk_wsize_le [of st] small
      by (simp add: chunk_written_count chunk_written_written [OF small])
    from writepage_loop_inv [OF rest this] first show ?thesis
      by simp
  next
    case False
    with ok run have "st' = ?st"
      by (simp add: Let_def)
    with first show ?thesis by simp
  qed
qed

lemma chunk_wsize_min: "unat (chunk_wsize st) = min (unat (ws_wsize st)) (unat (ws_count st))"
  by (auto simp: chunk_wsize_def IS_SWAPFILE_def word_less_nat_alt)

lemma chunk_written_wsize: "ws_wsize (chunk_written result st) = chunk_wsize st"
  by (simp add: chunk_written_def Let_def)

text \<open>
  The bytes written when a run of accepted chunks is followed by a failing call: each
  accepted chunk adds \<^verbatim>\<open>wsize\<close> bytes, the last one what was left of \<^verbatim>\<open>count\<close>.
\<close>

lemma writepage_loop_run:
  assumes "\<forall>r \<in> set oks. 0 \<le> r" and "e < 0" and "0 < ws_wsize st"
    and "unat (ws_written st) + unat (ws_count st) < 2 ^ 31"
  shows "\<exists>st'. writepage_loop (oks @ e # rest) st = Some st'
     \<and> unat (ws_written st')
         = unat (ws_written st) + min (length oks * unat (ws_wsize st)) (unat (ws_count st))
     \<and> (oks = [] \<longrightarrow> ws_result st' = e)"
  using assms
proof (induction oks arbitrary: st)
  case Nil
  then show ?case
    by (simp add: chunk_failed_def)
next
  case (Cons r oks)
  let ?st = "chunk_written r st"
  note small = Cons.prems(4)
  from Cons.prems(1) have r: "0 \<le> r" and rest: "\<forall>r \<in> set oks. 0 \<le> r"
    by simp_all
  have wr: "unat (ws_written ?st) = unat (ws_written st) + min (unat (ws_wsize st)) (unat (ws_count st))"
    by (simp add: chunk_written_written [OF small] chunk_wsize_min)
  have cn: "unat (ws_count ?st) = unat (ws_count st) - min (unat (ws_wsize st)) (unat (ws_count st))"
    by (simp add: chunk_written_count chunk_wsize_min)
  show ?case
  proof (cases "ws_count ?st = 0")
    case True
    then have "unat (ws_count ?st) = 0"
      by simp
    with cn have le: "unat (ws_count st) \<le> unat (ws_wsize st)"
      by (simp add: min_def split: if_splits)
    then have "unat (ws_count st) \<le> unat (ws_wsize st) + length oks * unat (ws_wsize st)"
      by simp
    with le have "unat (ws_written ?st)
        = unat (ws_written st) + min (length (r # oks) * unat (ws_wsize st)) (unat (ws_count st))"
      by (simp add: wr min_def)
    with True r show ?thesis
      by (simp add: Let_def)
  next
    case False
    then have "unat (ws_count ?st) \<noteq> 0"
      by (simp add: unat_eq_0)
    with cn have lt: "unat (ws_wsize st) < unat (ws_count st)"
      by (simp add: min_def split: if_splits)
    then have w1: "ws_wsize ?st = ws_wsize st"
      by (simp add: chunk_written_wsize chunk_wsize_def IS_SWAPFILE_def word_less_nat_alt)
    have pos: "0 < ws_wsize ?st"
      using Cons.prems(3) by (simp add: w1)
    have small': "unat (ws_written ?st) + unat (ws_count ?st) < 2 ^ 31"
      using small lt by (simp add: wr cn)
    from Cons.IH [OF rest Cons.prems(2) pos small']
    obtain st' where run: "writepage_loop (oks @ e # rest) ?st = Some st'"
      and w: "unat (ws_written st')
         = unat (ws_written ?st) + min (length oks * unat (ws_wsize ?st)) (unat (ws_count ?st))"
      by blast
    have ar: "a < c \<Longrightarrow> a + min m (c - a) = min (a + m) c" for a c m :: nat
      by arith
    have "unat (ws_written st')
        = unat (ws_written st) + min (length (r # oks) * unat (ws_wsize st)) (unat (ws_count st))"
      using lt ar [OF lt, of "length oks * unat (ws_wsize st)"] by (simp add: w w1 wr cn)
    with run False r show ?thesis
      by (simp add: Let_def)
  qed
qed


lemma writepage_loop_idle:
  assumes "0 \<le> r" and "ws_count st = 0"
  shows "writepage_loop (r # rs) st = Some (chunk_written r st)
     \<and> ws_written (chunk_written r st) = ws_written st \<and> ws_result (chunk_written r st) = r"
  using assms by (auto simp: Let_def chunk_written_def chunk_wsize_def IS_SWAPFILE_def word_gt_0)

text \<open>
  C10. Let the server's write size be above zero and the byte count fit a C \<^verbatim>\<open>int\<close>.
  When the server accepts the first chunks (the answers \<open>oks\<close>, at least one) and then
  fails a call with the error \<open>e\<close>, \<^verbatim>\<open>nfs_writepage_sync\<close> returns, and what it
  returns is the number of bytes written so far, \<^verbatim>\<open>wsize\<close> for each accepted chunk and
  never more than \<^verbatim>\<open>count\<close>; that number is positive, so it is not the error code.
  When the very first call fails, the error code is what is returned. And whenever a
  negative value is returned, it is the answer to the first call: no chunk was accepted
  and no byte was written.
\<close>

theorem nfs_writepage_sync_partial:
  assumes w: "0 < wsize" and small: "unat count < 2 ^ 31"
  shows "(oks \<noteq> [] \<and> (\<forall>r \<in> set oks. 0 \<le> r) \<and> e < 0 \<and> 0 < count \<longrightarrow>
            (\<exists>st. nfs_writepage_sync wsize shift pg_index i_size uptodate offset count
                     (oks @ e # rest)
                   = Some (int (min (length oks * unat wsize) (unat count)), st))
            \<and> 0 < int (min (length oks * unat wsize) (unat count)))
       \<and> (e < 0 \<longrightarrow>
            (\<exists>st. nfs_writepage_sync wsize shift pg_index i_size uptodate offset count (e # rest)
                   = Some (e, st)))
       \<and> (nfs_writepage_sync wsize shift pg_index i_size uptodate offset count rs = Some (ret, st)
            \<and> ret < 0 \<longrightarrow> rs \<noteq> [] \<and> hd rs = ret \<and> ws_written st = 0)"
proof (intro conjI impI)
  let ?st0 = "\<lparr>ws_wsize = wsize, ws_count = count,
              ws_offset = offset + push_bit shift pg_index,
              ws_written = 0, ws_result = 0, ws_refresh = False,
              ws_i_size = i_size, ws_uptodate = uptodate\<rparr>"
  have small0: "unat (ws_written ?st0) + unat (ws_count ?st0) < 2 ^ 31"
    using small by simp
  have w0: "0 < ws_wsize ?st0"
    using w by simp
  {
    assume h: "oks \<noteq> [] \<and> (\<forall>r \<in> set oks. 0 \<le> r) \<and> e < 0 \<and> 0 < count"
    then have oks: "\<forall>r \<in> set oks. 0 \<le> r" and e: "e < 0"
      by simp_all
    from writepage_loop_run [OF oks e w0 small0, of rest]
    obtain st' where run: "writepage_loop (oks @ e # rest) ?st0 = Some st'"
      and wr: "unat (ws_written st') = min (length oks * unat wsize) (unat count)"
      by auto
    from h w have "0 < length oks" "0 < unat wsize" "0 < unat count"
      by (simp_all add: unat_gt_0 word_gt_0)
    then have pos: "0 < min (length oks * unat wsize) (unat count)"
      by simp
    then have "0 < unat (ws_written st')"
      by (simp only: wr)
    then have nz: "ws_written st' \<noteq> 0"
      by (simp add: unat_gt_0)
    have "unat (ws_written st') < 2 ^ 31"
      using small by (simp add: wr)
    then have "sint (ws_written st') = int (min (length oks * unat wsize) (unat count))"
      by (simp add: sint_small wr)
    with run nz
    show "\<exists>st. nfs_writepage_sync wsize shift pg_index i_size uptodate offset count
                     (oks @ e # rest)
                   = Some (int (min (length oks * unat wsize) (unat count)), st)"
      by (simp add: nfs_writepage_sync_def)
    from pos show "0 < int (min (length oks * unat wsize) (unat count))"
      by simp
  }
  {
    assume "e < 0"
    then show "\<exists>st. nfs_writepage_sync wsize shift pg_index i_size uptodate offset count (e # rest)
                   = Some (e, st)"
      by (simp add: nfs_writepage_sync_def chunk_failed_def)
  }
  {
    assume h: "nfs_writepage_sync wsize shift pg_index i_size uptodate offset count rs = Some (ret, st)
            \<and> ret < 0"
    then have loop: "writepage_loop rs ?st0 = Some st"
      and ret: "ret = (if ws_written st \<noteq> 0 then sint (ws_written st) else ws_result st)"
      and neg: "ret < 0"
      by (auto simp: nfs_writepage_sync_def split: option.splits)
    from loop obtain r0 rs' where rs: "rs = r0 # rs'"
      by (cases rs) auto
    from writepage_loop_inv [OF loop small0] small have fits: "unat (ws_written st) < 2 ^ 31"
      by simp
    have zero: "ws_written st = 0"
    proof (rule ccontr)
      assume nz: "ws_written st \<noteq> 0"
      then have "0 < unat (ws_written st)"
        by (simp add: unat_gt_0)
      then have "0 < int (unat (ws_written st))"
        by (simp only: of_nat_0_less_iff)
      with nz ret sint_small [OF fits] neg show False
        by simp
    qed
    have first: "r0 < 0"
    proof (rule ccontr)
      assume "\<not> r0 < 0"
      then have r0: "0 \<le> r0"
        by simp
      show False
      proof (cases "count = 0")
        case True
        with writepage_loop_idle [OF r0, of ?st0 rs'] loop rs ret zero neg r0 show False
          by simp
      next
        case False
        then have c: "0 < ws_count ?st0"
          by (simp add: word_neq_0_conv)
        from writepage_loop_first [OF loop [unfolded rs] r0 w0 c small0] zero show False
          by simp
      qed
    qed
    with loop rs have "st = chunk_failed r0 ?st0"
      by simp
    with ret zero have "ret = r0"
      by (simp add: chunk_failed_def)
    with rs zero show "rs \<noteq> []" and "hd rs = ret" and "ws_written st = 0"
      by simp_all
  }
qed

theorem nfs_writepage_sync_partial_witness:
  "(0 :: u32) < 1024 \<and> unat (4096 :: u32) < 2 ^ 31
   \<and> map_option fst (nfs_writepage_sync 1024 12 3 0 True 0 4096 [1024, 1024, - 5]) = Some 2048
   \<and> map_option fst (nfs_writepage_sync 1024 12 3 0 True 0 4096 [- 5, 1024]) = Some (- 5)"
proof -
  have w: "(0 :: u32) < 1024" and small: "unat (4096 :: u32) < 2 ^ 31"
    by simp_all
  note t = nfs_writepage_sync_partial [OF w small, where oks = "[1024, 1024]" and e = "- 5"
        and shift = 12 and pg_index = 3 and i_size = 0 and uptodate = True and offset = 0]
  from t [where rest = "[]"]
  have a: "map_option fst (nfs_writepage_sync 1024 12 3 0 True 0 4096 [1024, 1024, - 5]) = Some 2048"
    by auto
  from t [where rest = "[1024]"]
  have b: "map_option fst (nfs_writepage_sync 1024 12 3 0 True 0 4096 [- 5, 1024]) = Some (- 5)"
    by auto
  from w small a b show ?thesis
    by blast
qed

section \<open>Allocation under the hard limit\<close>

lemma create_wait_below_hard:
  "create_wait k es s = Some (Some r, s') \<Longrightarrow> nfs_nr_requests s' < MAX_REQUEST_HARD k"
  by (induction es arbitrary: s) (auto simp: Let_def split: if_splits)

lemma create_wait_null:
  "create_wait k es s = Some (None, s') \<Longrightarrow> mount_intr k \<and> (\<exists>e \<in> set es. signalled e)"
  by (induction es arbitrary: s) (auto simp: Let_def split: if_splits)

lemma create_wait_retry:
  "MAX_REQUEST_HARD k \<le> nfs_nr_requests (after_soft_limit k e s) \<Longrightarrow>
   \<not> (mount_intr k \<and> signalled e) \<Longrightarrow>
   create_wait k (e # es) s = create_wait k es (sleep_effect e (after_soft_limit k e s))"
  by (auto simp: Let_def)

text \<open>
  C4, as stated, fails: on a mount without \<^verbatim>\<open>intr\<close>, with the request count at the hard
  limit, three waits that time out leave the caller in the loop with no error returned;
  and when a request retires during the second wait, the caller that timed out before
  gets its request, not an error.
\<close>

theorem nfs_create_request_timeout_counterexample:
  "nfs_create_request ex_consts 7 0 0 4096 False 0 0
      [quiet_pass, quiet_pass, quiet_pass] full_state = None
   \<and> map_option fst (nfs_create_request ex_consts 7 0 0 4096 False 0 0
      [quiet_pass, retiring_pass, quiet_pass] full_state) = Some (Some 5)"
  by (simp add: nfs_create_request_def after_soft_limit_def Let_def ex_consts_def
                quiet_pass_def retiring_pass_def full_state_def ex_state_def)

text \<open>
  C4, amended. A request is allocated only while the global request count is below the
  hard limit: the count just before the new request was registered is below
  \<^verbatim>\<open>MAX_REQUEST_HARD\<close>. At or above the hard limit the caller sleeps for a bounded time
  and, when the sleep ends, goes through the loop again: the call continues as a call
  made in the state the sleep left. \<^verbatim>\<open>NULL\<close> is returned only on a mount with the
  \<^verbatim>\<open>intr\<close> flag, to a caller that was signalled.
\<close>

theorem nfs_create_request_limits:
  "(nfs_create_request k file page offset count locked jiffies cred es s = Some (Some r, s') \<longrightarrow>
      nfs_nr_requests s' - 1 < MAX_REQUEST_HARD k)
   \<and> (nfs_create_request k file page offset count locked jiffies cred es s = Some (None, s') \<longrightarrow>
      mount_intr k \<and> (\<exists>e \<in> set es. signalled e))
   \<and> (MAX_REQUEST_HARD k \<le> nfs_nr_requests (after_soft_limit k e s) \<and>
      \<not> (mount_intr k \<and> signalled e) \<longrightarrow>
      nfs_create_request k file page offset count locked jiffies cred (e # es) s =
      nfs_create_request k file page offset count locked jiffies cred es
        (sleep_effect e (after_soft_limit k e s)))"
proof (intro conjI impI)
  assume "nfs_create_request k file page offset count locked jiffies cred es s = Some (Some r, s')"
  then obtain s1 where w: "create_wait k es s = Some (Some r, s1)"
    and s': "nfs_nr_requests s' = nfs_nr_requests s1 + 1"
    by (auto simp: nfs_create_request_def split: option.splits prod.splits)
  from create_wait_below_hard [OF w] s' show "nfs_nr_requests s' - 1 < MAX_REQUEST_HARD k"
    by simp
next
  assume "nfs_create_request k file page offset count locked jiffies cred es s = Some (None, s')"
  then have "create_wait k es s = Some (None, s')"
    by (auto simp: nfs_create_request_def split: option.splits prod.splits)
  then show "mount_intr k" and "\<exists>e \<in> set es. signalled e"
    by (auto dest: create_wait_null)
next
  assume "MAX_REQUEST_HARD k \<le> nfs_nr_requests (after_soft_limit k e s) \<and>
      \<not> (mount_intr k \<and> signalled e)"
  then have "create_wait k (e # es) s = create_wait k es (sleep_effect e (after_soft_limit k e s))"
    by (intro create_wait_retry) auto
  then show "nfs_create_request k file page offset count locked jiffies cred (e # es) s =
      nfs_create_request k file page offset count locked jiffies cred es
        (sleep_effect e (after_soft_limit k e s))"
    by (simp add: nfs_create_request_def)
qed

theorem nfs_create_request_limits_witness:
  "map_option fst (nfs_create_request ex_consts 7 0 0 4096 False 0 0
      [quiet_pass, retiring_pass, quiet_pass] full_state) = Some (Some 5)
   \<and> nfs_create_request (ex_consts\<lparr>mount_intr := True\<rparr>) 7 0 0 4096 False 0 0
        [quiet_pass, quiet_pass\<lparr>signalled := True\<rparr>] full_state = Some (None, full_state)
   \<and> MAX_REQUEST_HARD ex_consts \<le> nfs_nr_requests (after_soft_limit ex_consts quiet_pass full_state)
   \<and> \<not> (mount_intr ex_consts \<and> signalled quiet_pass)
   \<and> nfs_create_request ex_consts 7 0 0 4096 False 0 0
        (quiet_pass # [retiring_pass, quiet_pass]) full_state =
      nfs_create_request ex_consts 7 0 0 4096 False 0 0 [retiring_pass, quiet_pass] full_state"
proof -
  note defs = nfs_create_request_def after_soft_limit_def Let_def ex_consts_def
              quiet_pass_def retiring_pass_def full_state_def ex_state_def
  obtain s' where run: "nfs_create_request ex_consts 7 0 0 4096 False 0 0
      [quiet_pass, retiring_pass, quiet_pass] full_state = Some (Some 5, s')"
    by (simp add: defs)
  have below: "nfs_nr_requests s' - 1 < MAX_REQUEST_HARD ex_consts"
    using nfs_create_request_limits [where k = ex_consts and s = full_state and r = 5
      and s' = s' and es = "[quiet_pass, retiring_pass, quiet_pass]"] run by blast
  have null: "nfs_create_request (ex_consts\<lparr>mount_intr := True\<rparr>) 7 0 0 4096 False 0 0
        [quiet_pass, quiet_pass\<lparr>signalled := True\<rparr>] full_state = Some (None, full_state)"
    by (simp add: defs)
  have intr: "mount_intr (ex_consts\<lparr>mount_intr := True\<rparr>)
      \<and> (\<exists>e \<in> set [quiet_pass, quiet_pass\<lparr>signalled := True\<rparr>]. signalled e)"
    using nfs_create_request_limits [where k = "ex_consts\<lparr>mount_intr := True\<rparr>"
      and s = full_state and s' = full_state
      and es = "[quiet_pass, quiet_pass\<lparr>signalled := True\<rparr>]"] null by blast
  have hard: "MAX_REQUEST_HARD ex_consts
                \<le> nfs_nr_requests (after_soft_limit ex_consts quiet_pass full_state)"
    and nosig: "\<not> (mount_intr ex_consts \<and> signalled quiet_pass)"
    by (simp_all add: defs)
  have again: "nfs_create_request ex_consts 7 0 0 4096 False 0 0
        (quiet_pass # [retiring_pass, quiet_pass]) full_state =
      nfs_create_request ex_consts 7 0 0 4096 False 0 0 [retiring_pass, quiet_pass]
        (sleep_effect quiet_pass (after_soft_limit ex_consts quiet_pass full_state))"
    using nfs_create_request_limits [where k = ex_consts and s = full_state
      and e = quiet_pass and es = "[retiring_pass, quiet_pass]"] hard nosig by blast
  have same: "sleep_effect quiet_pass (after_soft_limit ex_consts quiet_pass full_state) = full_state"
    by (simp add: after_soft_limit_def quiet_pass_def)
  from run null hard nosig again same below intr show ?thesis
    by simp
qed

section \<open>Coalescing\<close>

lemma wb_list_empty_iff: "wb_list_empty s r \<longleftrightarrow> (\<forall>h. r \<notin> set (lists s h))"
proof
  assume a: "wb_list_empty s r"
  show "\<forall>h. r \<notin> set (lists s h)"
  proof
    fix h show "r \<notin> set (lists s h)"
      using a by (cases h) (simp_all add: wb_list_empty_def all_heads_def)
  qed
next
  assume "\<forall>h. r \<notin> set (lists s h)"
  then show "wb_list_empty s r"
    by (simp add: wb_list_empty_def all_heads_def)
qed

lemma upd_req_simps [simp]:
  "lists (upd_req r f s) = lists s"
  "writeback (upd_req r f s) = writeback s"
  "page_index (upd_req r f s) = page_index s"
  "reqs (upd_req r f s) = (reqs s)(r := f (reqs s r))"
  "npages (upd_req r f s) = npages s"
  "ndirty (upd_req r f s) = ndirty s"
  "ncommit (upd_req r f s) = ncommit s"
  "f_error (upd_req r f s) = f_error s"
  "nfs_nr_requests (upd_req r f s) = nfs_nr_requests s"
  "cache_nr_requests (upd_req r f s) = cache_nr_requests s"
  "freed (upd_req r f s) = freed s"
  "woken (upd_req r f s) = woken s"
  "request_wakeups (upd_req r f s) = request_wakeups s"
  by (simp_all add: upd_req_def)

lemma add_from_tail_below:
  "ps = [] \<or> idx (hd ps) < idx r \<Longrightarrow> add_from_tail idx r ps = r # ps"
  by (cases ps) auto

lemma list_add_sorted_append:
  "xs = [] \<or> idx (last xs) < idx r \<Longrightarrow> list_add_sorted idx r xs = xs @ [r]"
  unfolding list_add_sorted_def
  by (subst add_from_tail_below) (auto simp: hd_rev)

lemma req_index_link [simp]:
  "req_index (s\<lparr>reqs := (reqs s)(r := (reqs s r)\<lparr>wb_list_head := x\<rparr>)\<rparr>) = req_index s"
  by (rule ext) (simp add: req_index_def)

lemma req_index_lists [simp]: "req_index (s\<lparr>lists := l\<rparr>) = req_index s"
  by (rule ext) (simp add: req_index_def)

lemma remove_then_add:
  assumes on: "\<not> wb_list_empty s r" and hashed: "r \<in> set (writeback s)"
  shows "nfs_list_add_request r dst (nfs_list_remove_request r s) =
     s\<lparr>lists := (\<lambda>h. if h = dst then list_add_sorted (req_index s) r (removeAll r (lists s dst))
                        else removeAll r (lists s h)),
       reqs := (reqs s)(r := (reqs s r)\<lparr>wb_list_head := Some dst\<rparr>)\<rparr>"
proof -
  let ?s1 = "nfs_list_remove_request r s"
  have s1: "?s1 = upd_req r (\<lambda>q. q\<lparr>wb_list_head := None\<rparr>)
             (s\<lparr>lists := (\<lambda>h. removeAll r (lists s h))\<rparr>)"
    using on by (simp add: nfs_list_remove_request_def)
  have e: "wb_list_empty ?s1 r"
    by (simp add: s1 wb_list_empty_iff)
  have h: "\<not> wb_hash_empty ?s1 r"
    using hashed by (simp add: s1 wb_hash_empty_def)
  have idx: "req_index ?s1 = req_index s"
    by (rule ext) (simp add: s1 req_index_def)
  show ?thesis
    unfolding nfs_list_add_request_def using e h
    by (simp add: idx) (simp add: s1 upd_req_def fun_eq_iff)
qed


lemma req_span_link:
  "req_span (s\<lparr>lists := l, reqs := (reqs s)(r := (reqs s r)\<lparr>wb_list_head := x\<rparr>)\<rparr>) = req_span s"
  by (rule ext) (simp add: req_span_def req_index_def)

lemma req_span_fields:
  assumes "req_span s' = req_span s"
  shows "req_index s' = req_index s"
    and "wb_file (reqs s' r) = wb_file (reqs s r)"
    and "wb_offset (reqs s' r) = wb_offset (reqs s r)"
    and "wb_bytes (reqs s' r) = wb_bytes (reqs s r)"
proof -
  have "\<And>r. req_span s' r = req_span s r" using assms by simp
  then show "req_index s' = req_index s" "wb_file (reqs s' r) = wb_file (reqs s r)"
    "wb_offset (reqs s' r) = wb_offset (reqs s r)" "wb_bytes (reqs s' r) = wb_bytes (reqs s r)"
    by (auto simp: req_span_def fun_eq_iff)
qed


lemma req_span_stop:
  assumes "req_span s' = req_span s"
  shows "coalesce_stop s' prev r = coalesce_stop s prev r"
  by (simp add: coalesce_stop_def req_span_fields [OF assms] split: option.splits)

lemma req_span_page_end:
  assumes "req_span s' = req_span s"
  shows "page_end k s' r = page_end k s r"
  by (simp add: page_end_def req_span_fields [OF assms])

lemma req_span_chain:
  assumes "req_span s' = req_span s"
  shows "batch_chain k s' xs = batch_chain k s xs"
proof (induction xs rule: induct_list012)
  case (3 x y zs)
  then show ?case
    by (simp add: req_span_stop [OF assms] req_span_page_end [OF assms])
qed simp_all

lemma batch_chain_snoc:
  "batch_chain k s xs \<Longrightarrow> (xs \<noteq> [] \<Longrightarrow> page_end k s (last xs) \<and> \<not> coalesce_stop s (Some (last xs)) r)
     \<Longrightarrow> batch_chain k s (xs @ [r])"
proof (induction xs rule: induct_list012)
  case (3 x y zs)
  then show ?case by simp
qed simp_all

lemma coalesce_move:
  assumes ne: "src \<noteq> dst" and src: "lists s src = req # rest" and dst: "lists s dst = batch"
    and dist: "distinct (batch @ req # rest)"
    and hashed: "req \<in> set (writeback s)"
    and asc: "sorted_wrt (\<lambda>a b. req_index s a < req_index s b) (batch @ req # rest)"
  defines "s' \<equiv> nfs_list_add_request req dst (nfs_list_remove_request req s)"
  shows "lists s' src = rest" and "lists s' dst = batch @ [req]"
    and "\<And>h. h \<noteq> src \<Longrightarrow> h \<noteq> dst \<Longrightarrow> lists s' h = removeAll req (lists s h)"
    and "writeback s' = writeback s" and "req_span s' = req_span s"
proof -
  have on: "\<not> wb_list_empty s req"
    using src by (auto simp: wb_list_empty_iff intro: exI [of _ src])
  have s': "s' = s\<lparr>lists := (\<lambda>h. if h = dst
                        then list_add_sorted (req_index s) req (removeAll req (lists s dst))
                        else removeAll req (lists s h)),
       reqs := (reqs s)(req := (reqs s req)\<lparr>wb_list_head := Some dst\<rparr>)\<rparr>"
    unfolding s'_def by (rule remove_then_add [OF on hashed])
  have notin: "req \<notin> set batch" "req \<notin> set rest"
    using dist by auto
  have below: "batch = [] \<or> req_index s (last batch) < req_index s req"
  proof (cases "batch = []")
    case False
    then have "last batch \<in> set batch" by (rule last_in_set)
    with asc show ?thesis by (auto simp: sorted_wrt_append)
  qed simp
  show "lists s' src = rest"
    using ne src notin by (simp add: s')
  show "lists s' dst = batch @ [req]"
    using dst notin below by (simp add: s' list_add_sorted_append)
  show "\<And>h. h \<noteq> src \<Longrightarrow> h \<noteq> dst \<Longrightarrow> lists s' h = removeAll req (lists s h)"
    by (simp add: s')
  show "writeback s' = writeback s"
    by (simp add: s')
  show "req_span s' = req_span s"
    unfolding s' by (rule req_span_link)
qed


lemma coalesce_loop_prefix:
  assumes "src \<noteq> dst"
    and "lists s src = rest" and "lists s dst = batch"
    and "distinct (batch @ rest)"
    and "\<forall>r \<in> set rest. r \<in> set (writeback s)"
    and "sorted_wrt (\<lambda>a b. req_index s a < req_index s b) (batch @ rest)"
    and "prev = (if batch = [] then None else Some (last batch))"
    and "batch_chain k s batch"
    and "batch \<noteq> [] \<longrightarrow> page_end k s (last batch)"
    and "coalesce_loop k src dst maxpages prev pages s = (n, s')"
  shows "\<exists>m. m \<le> length rest \<and> lists s' dst = batch @ take m rest \<and> lists s' src = drop m rest
     \<and> n = pages + of_nat m \<and> req_span s' = req_span s \<and> writeback s' = writeback s
     \<and> batch_chain k s (batch @ take m rest)
     \<and> (batch = [] \<and> rest \<noteq> [] \<longrightarrow> 0 < m)
     \<and> (m = 0 \<or> unat (pages + 1) + m \<le> Suc (max (unat (pages + 1)) (unat maxpages)))
     \<and> (drop m rest \<noteq> [] \<longrightarrow>
          coalesce_stop s (Some (last (batch @ take m rest))) (hd (drop m rest))
          \<or> \<not> page_end k s (last (batch @ take m rest)) \<or> maxpages \<le> n)"
  using assms
proof (induction k src dst maxpages prev pages s arbitrary: rest batch rule: coalesce_loop.induct)
  case (1 k src dst maxpages prev pages s)
  note run = "1.prems"(10)
  show ?case
  proof (cases rest)
    case Nil
    with run "1.prems"(2) have "n = pages" "s' = s"
      by simp_all
    with Nil "1.prems"(2,3,8) show ?thesis
      by (intro exI [of _ 0]) simp
  next
    case (Cons req rest')
    note src = "1.prems"(2) [unfolded Cons]
    show ?thesis
    proof (cases "coalesce_stop s prev req")
      case True
      with run src have "n = pages" "s' = s"
        by simp_all
      moreover from True "1.prems"(7) have "batch \<noteq> []"
        by (auto simp: coalesce_stop_def split: if_splits)
      ultimately show ?thesis
        using True "1.prems"(2,3,7,8) Cons by (intro exI [of _ 0]) simp
    next
      case False
      define s1 where "s1 = nfs_list_add_request req dst (nfs_list_remove_request req s)"
      have hashed: "req \<in> set (writeback s)"
        using "1.prems"(5) Cons by simp
      note mv = coalesce_move [OF "1.prems"(1) src "1.prems"(3) "1.prems"(4) [unfolded Cons] hashed
                  "1.prems"(6) [unfolded Cons], folded s1_def]
      note span = mv(5)
      have link: "batch \<noteq> [] \<Longrightarrow> page_end k s (last batch) \<and> \<not> coalesce_stop s (Some (last batch)) req"
        using False "1.prems"(7,9) by simp
      have chain1: "batch_chain k s (batch @ [req])"
        using "1.prems"(8) link by (rule batch_chain_snoc)
      have pe: "page_end k s1 req = page_end k s req"
        by (rule req_span_page_end [OF span])
      show ?thesis
      proof (cases "page_end k s req \<and> \<not> maxpages \<le> pages + 1")
        case stop: False
        with run src False pe have "n = pages + 1" "s' = s1"
          by (auto simp: Let_def s1_def [symmetric] page_end_def split: if_splits)
        have one: "take 1 rest = [req]" "drop 1 rest = rest'"
          using Cons by simp_all
        have fin: "\<not> page_end k s req \<or> maxpages \<le> n"
          using stop \<open>n = pages + 1\<close> by blast
        show ?thesis
        proof (intro exI [of _ 1] conjI)
          show "1 \<le> length rest" using Cons by simp
          show "lists s' dst = batch @ take 1 rest" using mv(2) \<open>s' = s1\<close> one by simp
          show "lists s' src = drop 1 rest" using mv(1) \<open>s' = s1\<close> one by simp
          show "n = pages + of_nat 1" using \<open>n = pages + 1\<close> by simp
          show "req_span s' = req_span s" using span \<open>s' = s1\<close> by simp
          show "writeback s' = writeback s" using mv(4) \<open>s' = s1\<close> by simp
          show "batch_chain k s (batch @ take 1 rest)" using chain1 one by simp
          show "batch = [] \<and> rest \<noteq> [] \<longrightarrow> 0 < (1::nat)" by simp
          show "(1::nat) = 0 \<or> unat (pages + 1) + 1 \<le> Suc (max (unat (pages + 1)) (unat maxpages))"
            by simp
          show "drop 1 rest \<noteq> [] \<longrightarrow>
              coalesce_stop s (Some (last (batch @ take 1 rest))) (hd (drop 1 rest))
              \<or> \<not> page_end k s (last (batch @ take 1 rest)) \<or> maxpages \<le> n"
            using fin one by simp
        qed
      next
        case go: True
        with run src False pe
        have run1: "coalesce_loop k src dst maxpages (Some req) (pages + 1) s1 = (n, s')"
          by (auto simp: Let_def s1_def [symmetric] page_end_def split: if_splits)
        have pe1: "wb_offset (reqs s1 req) + wb_bytes (reqs s1 req) = PAGE_CACHE_SIZE k"
          using go pe by (simp add: page_end_def)
        have idx: "req_index s1 = req_index s"
          by (rule req_span_fields(1) [OF span])
        have IH: "\<exists>m. m \<le> length rest' \<and> lists s' dst = (batch @ [req]) @ take m rest'
            \<and> lists s' src = drop m rest'
            \<and> n = pages + 1 + of_nat m \<and> req_span s' = req_span s1 \<and> writeback s' = writeback s1
            \<and> batch_chain k s1 ((batch @ [req]) @ take m rest')
            \<and> (batch @ [req] = [] \<and> rest' \<noteq> [] \<longrightarrow> 0 < m)
            \<and> (m = 0 \<or> unat (pages + 1 + 1) + m \<le> Suc (max (unat (pages + 1 + 1)) (unat maxpages)))
            \<and> (drop m rest' \<noteq> [] \<longrightarrow>
                coalesce_stop s1 (Some (last ((batch @ [req]) @ take m rest'))) (hd (drop m rest'))
                \<or> \<not> page_end k s1 (last ((batch @ [req]) @ take m rest')) \<or> maxpages \<le> n)"
        proof (rule "1.IH" [OF src False s1_def])
          show "\<not> wb_offset (reqs s1 req) + wb_bytes (reqs s1 req) \<noteq> PAGE_CACHE_SIZE k"
            using pe1 by simp
          show "\<not> maxpages \<le> pages + 1" using go by simp
          show "src \<noteq> dst" by (rule "1.prems"(1))
          show "lists s1 src = rest'" by (rule mv(1))
          show "lists s1 dst = batch @ [req]" by (rule mv(2))
          show "distinct ((batch @ [req]) @ rest')" using "1.prems"(4) Cons by simp
          show "\<forall>r\<in>set rest'. r \<in> set (writeback s1)"
            using "1.prems"(5) Cons mv(4) by simp
          show "sorted_wrt (\<lambda>a b. req_index s1 a < req_index s1 b) ((batch @ [req]) @ rest')"
            using "1.prems"(6) Cons idx by simp
          show "Some req = (if batch @ [req] = [] then None else Some (last (batch @ [req])))"
            by simp
          show "batch_chain k s1 (batch @ [req])"
            using chain1 by (simp add: req_span_chain [OF span])
          show "batch @ [req] \<noteq> [] \<longrightarrow> page_end k s1 (last (batch @ [req]))"
            using go pe by simp
          show "coalesce_loop k src dst maxpages (Some req) (pages + 1) s1 = (n, s')"
            by (rule run1)
        qed
        then obtain m where m: "m \<le> length rest'"
          "lists s' dst = (batch @ [req]) @ take m rest'" "lists s' src = drop m rest'"
          "n = pages + 1 + of_nat m" "req_span s' = req_span s1" "writeback s' = writeback s1"
          "batch_chain k s1 ((batch @ [req]) @ take m rest')"
          "m = 0 \<or> unat (pages + 1 + 1) + m \<le> Suc (max (unat (pages + 1 + 1)) (unat maxpages))"
          "drop m rest' \<noteq> [] \<longrightarrow>
                coalesce_stop s1 (Some (last ((batch @ [req]) @ take m rest'))) (hd (drop m rest'))
                \<or> \<not> page_end k s1 (last ((batch @ [req]) @ take m rest')) \<or> maxpages \<le> n"
          by blast
        have lt: "pages + 1 < maxpages" using go by (simp add: not_le)
        have "pages + 1 \<noteq> - 1"
        proof
          assume "pages + 1 = - 1"
          with lt have "- 1 < maxpages" by simp
          then show False by (simp add: word_order.not_eq_extremum [symmetric] not_less)
        qed
        then have suc: "unat (pages + 1 + 1) = Suc (unat (pages + 1))"
          using unatSuc [of "pages + 1"] by (simp add: add.commute)
        have le: "Suc (unat (pages + 1)) \<le> unat maxpages"
          using lt by (simp add: word_less_nat_alt)
        have bound: "unat (pages + 1) + Suc m \<le> Suc (max (unat (pages + 1)) (unat maxpages))"
          using m(8) suc le by auto
        show ?thesis
        proof (intro exI [of _ "Suc m"] conjI)
          show "Suc m \<le> length rest" using m(1) Cons by simp
          show "lists s' dst = batch @ take (Suc m) rest" using m(2) Cons by simp
          show "lists s' src = drop (Suc m) rest" using m(3) Cons by simp
          show "n = pages + of_nat (Suc m)" using m(4) by simp
          show "req_span s' = req_span s" using m(5) span by simp
          show "writeback s' = writeback s" using m(6) mv(4) by simp
          show "batch_chain k s (batch @ take (Suc m) rest)"
            using m(7) Cons by (simp add: req_span_chain [OF span])
          show "batch = [] \<and> rest \<noteq> [] \<longrightarrow> 0 < Suc m" by simp
          show "Suc m = 0 \<or> unat (pages + 1) + Suc m \<le> Suc (max (unat (pages + 1)) (unat maxpages))"
            using bound by simp
          show "drop (Suc m) rest \<noteq> [] \<longrightarrow>
              coalesce_stop s (Some (last (batch @ take (Suc m) rest))) (hd (drop (Suc m) rest))
              \<or> \<not> page_end k s (last (batch @ take (Suc m) rest)) \<or> maxpages \<le> n"
            using m(9) Cons
            by (simp add: req_span_stop [OF span] req_span_page_end [OF span])
        qed
      qed
    qed
  qed
qed



lemma batch_chain_tl_offset:
  "batch_chain k s xs \<Longrightarrow> r \<in> set (tl xs) \<Longrightarrow> wb_offset (reqs s r) = 0"
  by (induction xs rule: induct_list012) (auto simp: coalesce_stop_def)

lemma batch_chain_butlast_end:
  "batch_chain k s xs \<Longrightarrow> r \<in> set (butlast xs) \<Longrightarrow> page_end k s r"
  by (induction xs rule: induct_list012) (auto simp: coalesce_stop_def)

lemma coalesce_requests_prefix:
  assumes ne: "src \<noteq> dst" and empty: "lists s dst = []" and q: "queued s src"
    and asc: "ascending s (lists s src)"
    and run: "coalesce_requests k src dst maxpages s = (n, s')"
  obtains m where "m \<le> length (lists s src)" and "m \<le> max 1 (unat maxpages)" and "unat n = m"
     and "lists s' dst = take m (lists s src)" and "lists s' src = drop m (lists s src)"
     and "req_span s' = req_span s" and "writeback s' = writeback s"
     and "batch_chain k s' (lists s' dst)"
     and "lists s src \<noteq> [] \<longrightarrow> 0 < m"
     and "lists s' src \<noteq> [] \<longrightarrow>
          coalesce_stop s' (Some (last (lists s' dst))) (hd (lists s' src))
          \<or> \<not> page_end k s' (last (lists s' dst)) \<or> maxpages \<le> n"
proof -
  have d: "distinct ([] @ lists s src)"
    using q by (simp add: queued_def)
  have h: "\<forall>r\<in>set (lists s src). r \<in> set (writeback s)"
    using q by (simp add: queued_def list_all_iff)
  have st: "sorted_wrt (\<lambda>a b. req_index s a < req_index s b) ([] @ lists s src)"
    using asc by (simp add: ascending_def)
  have pv: "None = (if ([]::nat list) = [] then None else Some (last []))"
    by simp
  have bc: "batch_chain k s []"
    by simp
  have pe: "[] \<noteq> [] \<longrightarrow> page_end k s (last [])"
    by simp
  have r: "coalesce_loop k src dst maxpages None 0 s = (n, s')"
    using run by (simp add: coalesce_requests_def)
  from coalesce_loop_prefix [OF ne refl empty d h st pv bc pe r]
  obtain m where all: "m \<le> length (lists s src) \<and> lists s' dst = [] @ take m (lists s src)
     \<and> lists s' src = drop m (lists s src)
     \<and> n = 0 + of_nat m \<and> req_span s' = req_span s \<and> writeback s' = writeback s
     \<and> batch_chain k s ([] @ take m (lists s src))
     \<and> (([]::nat list) = [] \<and> lists s src \<noteq> [] \<longrightarrow> 0 < m)
     \<and> (m = 0 \<or> unat (0 + 1 :: u32) + m \<le> Suc (max (unat (0 + 1 :: u32)) (unat maxpages)))
     \<and> (drop m (lists s src) \<noteq> [] \<longrightarrow>
          coalesce_stop s (Some (last ([] @ take m (lists s src)))) (hd (drop m (lists s src)))
          \<or> \<not> page_end k s (last ([] @ take m (lists s src))) \<or> maxpages \<le> n)"
    by (rule exE)
  note c0 = all [unfolded append_Nil add_0_left]
  note len = c0 [THEN conjunct1] and c1 = c0 [THEN conjunct2]
  note dst = c1 [THEN conjunct1] and c2 = c1 [THEN conjunct2]
  note src = c2 [THEN conjunct1] and c3 = c2 [THEN conjunct2]
  note n = c3 [THEN conjunct1] and c4 = c3 [THEN conjunct2]
  note sp = c4 [THEN conjunct1] and c5 = c4 [THEN conjunct2]
  note wb = c5 [THEN conjunct1] and c6 = c5 [THEN conjunct2]
  note ch = c6 [THEN conjunct1] and c7 = c6 [THEN conjunct2]
  note pos0 = c7 [THEN conjunct1] and c8 = c7 [THEN conjunct2]
  note bd = c8 [THEN conjunct1] and fin = c8 [THEN conjunct2]
  have pos: "lists s src \<noteq> [] \<longrightarrow> 0 < m"
    using pos0 by simp
  have bound: "m \<le> max 1 (unat maxpages)"
    using bd by auto
  have "unat maxpages < 2 ^ 32"
    using unsigned_less [of maxpages, where 'a = nat] by simp
  with bound have "m < 2 ^ 32"
    by (simp add: max_def split: if_splits)
  with n have un: "unat n = m"
    by (intro of_nat_inverse) simp_all
  have ch': "batch_chain k s' (lists s' dst)"
    using ch by (simp add: dst req_span_chain [OF sp])
  have fin': "lists s' src \<noteq> [] \<longrightarrow>
          coalesce_stop s' (Some (last (lists s' dst))) (hd (lists s' src))
          \<or> \<not> page_end k s' (last (lists s' dst)) \<or> maxpages \<le> n"
    using fin by (simp add: dst src req_span_stop [OF sp] req_span_page_end [OF sp])
  show thesis
    by (rule that [OF len bound un dst src sp wb ch' pos fin'])
qed

lemma ascending_span:
  assumes "req_span s' = req_span s"
  shows "ascending s' xs = ascending s xs"
  by (simp add: ascending_def req_span_fields(1) [OF assms])


lemmas eval_defs = coalesce_requests_def coalesce_stop_def nfs_list_add_request_def
  nfs_list_remove_request_def wb_list_empty_def wb_hash_empty_def all_heads_def
  list_add_sorted_def req_index_def Let_def upd_req_def page_end_def
  word_le_nat_alt word_less_nat_alt

lemmas ex_defs = two_state_def ex_state_def ex_page_def ex_consts_def






text \<open>
  C5, as stated, fails: of two queued requests on neighbouring pages, the first starting
  at byte 100 of its page and reaching the page's end, the second covering its page,
  \<^verbatim>\<open>coalesce_requests\<close> makes one batch. The request with the non-zero offset is in the
  batch and is not the last one added: the batch goes on with the second request.
\<close>

theorem coalesce_requests_offset_counterexample:
  "queued two_state HEAD \<and> ascending two_state (lists two_state HEAD)
   \<and> wb_offset (reqs two_state 1) = 100
   \<and> lists (snd (coalesce_requests ex_consts HEAD ONE_REQUEST 8 two_state)) ONE_REQUEST = [1, 2]"
  by (simp add: queued_def ascending_def eval_defs ex_defs)

text \<open>
  C5, amended. Let the source list be queued and ascending and the destination list
  empty. A request with a non-zero starting offset is never added to a batch behind
  another request: every request of the batch after the first starts at offset zero,
  and a request with a non-zero offset at the head of what is left on the source list
  is not in the batch. Every request of the batch but the last ends at the end of its
  page.
\<close>

theorem coalesce_requests_offsets:
  assumes "src \<noteq> dst" and "lists s dst = []" and "queued s src"
    and "ascending s (lists s src)"
    and "coalesce_requests k src dst maxpages s = (n, s')"
  shows "lists s' dst = take (unat n) (lists s src)
     \<and> (\<forall>r \<in> set (tl (lists s' dst)). wb_offset (reqs s' r) = 0)
     \<and> (\<forall>r \<in> set (butlast (lists s' dst)). page_end k s' r)
     \<and> (lists s' src \<noteq> [] \<and> wb_offset (reqs s' (hd (lists s' src))) \<noteq> 0 \<longrightarrow>
           hd (lists s' src) \<notin> set (lists s' dst))"
proof -
  obtain m where m: "m \<le> length (lists s src)" "m \<le> max 1 (unat maxpages)" "unat n = m"
     "lists s' dst = take m (lists s src)" "lists s' src = drop m (lists s src)"
     "req_span s' = req_span s" "writeback s' = writeback s"
     "batch_chain k s' (lists s' dst)"
     "lists s src \<noteq> [] \<longrightarrow> 0 < m"
     "lists s' src \<noteq> [] \<longrightarrow>
          coalesce_stop s' (Some (last (lists s' dst))) (hd (lists s' src))
          \<or> \<not> page_end k s' (last (lists s' dst)) \<or> maxpages \<le> n"
    by (rule coalesce_requests_prefix [OF assms])
  have "distinct (take m (lists s src) @ drop m (lists s src))"
    using assms(3) by (simp add: queued_def)
  then have "set (lists s' dst) \<inter> set (lists s' src) = {}"
    unfolding m(4,5) by (simp only: distinct_append)
  then have out: "lists s' src \<noteq> [] \<longrightarrow> hd (lists s' src) \<notin> set (lists s' dst)"
    by (auto dest: hd_in_set)
  have tl: "\<forall>r \<in> set (tl (lists s' dst)). wb_offset (reqs s' r) = 0"
    using batch_chain_tl_offset [OF m(8)] by blast
  have bl: "\<forall>r \<in> set (butlast (lists s' dst)). page_end k s' r"
    using batch_chain_butlast_end [OF m(8)] by blast
  show ?thesis
    using out tl bl by (simp add: m(3,4))
qed

theorem coalesce_requests_offsets_witness:
  "HEAD \<noteq> ONE_REQUEST \<and> lists two_state ONE_REQUEST = [] \<and> queued two_state HEAD
   \<and> ascending two_state (lists two_state HEAD)
   \<and> lists (snd (coalesce_requests ex_consts HEAD ONE_REQUEST 8 two_state)) ONE_REQUEST = [1, 2]
   \<and> wb_offset (reqs (snd (coalesce_requests ex_consts HEAD ONE_REQUEST 8 two_state)) 2) = 0
   \<and> page_end ex_consts (snd (coalesce_requests ex_consts HEAD ONE_REQUEST 8 two_state)) 1"
proof -
  let ?r = "coalesce_requests ex_consts HEAD ONE_REQUEST 8 two_state"
  have ne: "HEAD \<noteq> ONE_REQUEST"
    by simp
  have empty: "lists two_state ONE_REQUEST = []"
    by (simp add: ex_defs)
  have q: "queued two_state HEAD"
    by (simp add: queued_def ex_defs)
  have asc: "ascending two_state (lists two_state HEAD)"
    by (simp add: ascending_def eval_defs ex_defs)
  have run: "?r = (fst ?r, snd ?r)"
    by simp
  have batch: "lists (snd ?r) ONE_REQUEST = [1, 2]"
    by (simp add: eval_defs ex_defs)
  note batch_props = coalesce_requests_offsets [OF ne empty q asc run]
  from batch_props have "\<forall>r \<in> set (tl (lists (snd ?r) ONE_REQUEST)). wb_offset (reqs (snd ?r) r) = 0"
    by blast
  then have off: "wb_offset (reqs (snd ?r) 2) = 0"
    unfolding batch by simp
  from batch_props have "\<forall>r \<in> set (butlast (lists (snd ?r) ONE_REQUEST)). page_end ex_consts (snd ?r) r"
    by blast
  then have pe: "page_end ex_consts (snd ?r) 1"
    unfolding batch by simp
  from ne empty q asc batch off pe show ?thesis
    by blast
qed

section \<open>Effects of the primitives on one request\<close>

declare nfs_release_request.simps [simp del] nfs_inode_remove_request.simps [simp del]
  writeback_loop.simps [simp del] commit_loop.simps [simp del] coalesce_loop.simps [simp del]

lemma only_refl: "only r s s"
  by (simp add: only_def)

lemma only_trans: "only r s s1 \<Longrightarrow> only r s1 s2 \<Longrightarrow> only r s s2"
  by (simp add: only_def)

lemma only_same:
  "reqs s' = reqs s \<Longrightarrow> lists s' = lists s \<Longrightarrow> writeback s' = writeback s \<Longrightarrow>
   page_index s' = page_index s \<Longrightarrow> only r s s'"
  by (simp add: only_def)

lemma only_upd_req:
  "wb_file (f (reqs s r)) = wb_file (reqs s r) \<Longrightarrow> wb_page (f (reqs s r)) = wb_page (reqs s r) \<Longrightarrow>
   only r s (upd_req r f s)"
  by (simp add: only_def)

lemma lists_list_remove:
  "lists (nfs_list_remove_request r s) = (\<lambda>h. removeAll r (lists s h))"
proof (cases "wb_list_empty s r")
  case True
  then have "\<And>h. removeAll r (lists s h) = lists s h"
    by (simp add: wb_list_empty_iff)
  with True show ?thesis
    by (simp add: nfs_list_remove_request_def)
next
  case False
  then show ?thesis
    by (simp add: nfs_list_remove_request_def)
qed

lemma only_list_remove: "only r s (nfs_list_remove_request r s)"
  by (simp add: only_def lists_list_remove) (simp add: nfs_list_remove_request_def)

lemma removeAll_add_from_tail:
  "removeAll r (add_from_tail idx r ps) = removeAll r ps"
  by (induction ps) auto

lemma removeAll_list_add_sorted:
  "removeAll r (list_add_sorted idx r xs) = removeAll r xs"
proof -
  have rv: "removeAll r (rev ys) = rev (removeAll r ys)" for ys :: "nat list"
    by (simp add: removeAll_filter_not_eq rev_filter)
  show ?thesis
    by (simp add: list_add_sorted_def rv removeAll_add_from_tail)
qed

lemma only_list_add: "only r s (nfs_list_add_request r h s)"
  by (simp add: only_def nfs_list_add_request_def removeAll_list_add_sorted)

lemma only_release: "only r s (nfs_release_request r s)"
  and only_inode_remove: "only r s (nfs_inode_remove_request r s)"
proof (induction r s and r s rule: nfs_release_request_nfs_inode_remove_request.induct)
  case (1 r s)
  define s1 where "s1 = upd_req r (\<lambda>q. q\<lparr>wb_count := wb_count q - 1\<rparr>) s"
  define s2 where "s2 = (if \<not> wb_list_empty s1 r then nfs_list_remove_request r s1 else s1)"
  define s3 where "s3 = (if \<not> wb_hash_empty s2 r then nfs_inode_remove_request r s2 else s2)"
  have o1: "only r s s1"
    unfolding s1_def by (rule only_upd_req) simp_all
  have o2: "only r s1 s2"
    by (simp add: s2_def only_list_remove only_refl)
  show ?case
  proof (cases "wb_count (reqs s1 r) \<noteq> 0")
    case True
    then have "nfs_release_request r s = s1"
      by (simp add: nfs_release_request.simps [of r s] Let_def s1_def [symmetric])
    with o1 show ?thesis by simp
  next
    case False
    have o3: "only r s2 s3"
      using "1.IH" [OF s1_def False s2_def] by (simp add: s3_def only_refl)
    have eq: "nfs_release_request r s =
            s3\<lparr>freed := r # freed s3, cache_nr_requests := cache_nr_requests s3 - 1,
               nfs_nr_requests := nfs_nr_requests s3 - 1,
               request_wakeups := Suc (request_wakeups s3)\<rparr>"
      using False
      by (simp add: nfs_release_request.simps [of r s] Let_def s1_def [symmetric]
                    s2_def [symmetric] s3_def [symmetric])
    have "only r s3 (nfs_release_request r s)"
      unfolding eq by (rule only_same) simp_all
    with o1 o2 o3 show ?thesis
      by (blast intro: only_trans)
  qed
next
  case (2 r s)
  show ?case
  proof (cases "wb_hash_empty s r")
    case True
    then show ?thesis by (simp add: nfs_inode_remove_request.simps only_refl)
  next
    case False
    let ?s = "s\<lparr>writeback := removeAll r (writeback s), npages := npages s - 1\<rparr>"
    have "only r s ?s"
      by (simp add: only_def)
    moreover have "only r ?s (nfs_release_request r ?s)"
      using "2.IH" [OF False] .
    ultimately show ?thesis
      using False by (simp add: nfs_inode_remove_request.simps only_trans)
  qed
qed


lemma shrunk_refl: "shrunk r s s"
  by (simp add: shrunk_def)

lemma shrunk_trans: "shrunk r s s1 \<Longrightarrow> shrunk r s1 s2 \<Longrightarrow> shrunk r s s2"
  unfolding shrunk_def by (elim conjE disjE) simp_all

lemma shrunk_same:
  "lists s' = lists s \<Longrightarrow> writeback s' = writeback s \<Longrightarrow>
   wb_flags (reqs s' r) = wb_flags (reqs s r) \<Longrightarrow> f_error s' = f_error s \<Longrightarrow> shrunk r s s'"
  by (simp add: shrunk_def)

lemma shrunk_list_remove: "shrunk r s (nfs_list_remove_request r s)"
  by (simp add: shrunk_def lists_list_remove) (simp add: nfs_list_remove_request_def)

lemma shrunk_release: "shrunk r s (nfs_release_request r s)"
  and shrunk_inode_remove: "shrunk r s (nfs_inode_remove_request r s)"
proof (induction r s and r s rule: nfs_release_request_nfs_inode_remove_request.induct)
  case (1 r s)
  define s1 where "s1 = upd_req r (\<lambda>q. q\<lparr>wb_count := wb_count q - 1\<rparr>) s"
  define s2 where "s2 = (if \<not> wb_list_empty s1 r then nfs_list_remove_request r s1 else s1)"
  define s3 where "s3 = (if \<not> wb_hash_empty s2 r then nfs_inode_remove_request r s2 else s2)"
  have o1: "shrunk r s s1"
    unfolding s1_def by (rule shrunk_same) simp_all
  have o2: "shrunk r s1 s2"
    by (simp add: s2_def shrunk_list_remove shrunk_refl)
  show ?case
  proof (cases "wb_count (reqs s1 r) \<noteq> 0")
    case True
    then have "nfs_release_request r s = s1"
      by (simp add: nfs_release_request.simps [of r s] Let_def s1_def [symmetric])
    with o1 show ?thesis by simp
  next
    case False
    have o3: "shrunk r s2 s3"
      using "1.IH" [OF s1_def False s2_def] by (simp add: s3_def shrunk_refl)
    have eq: "nfs_release_request r s =
            s3\<lparr>freed := r # freed s3, cache_nr_requests := cache_nr_requests s3 - 1,
               nfs_nr_requests := nfs_nr_requests s3 - 1,
               request_wakeups := Suc (request_wakeups s3)\<rparr>"
      using False
      by (simp add: nfs_release_request.simps [of r s] Let_def s1_def [symmetric]
                    s2_def [symmetric] s3_def [symmetric])
    have "shrunk r s3 (nfs_release_request r s)"
      unfolding eq by (rule shrunk_same) simp_all
    with o1 o2 o3 show ?thesis
      by (blast intro: shrunk_trans)
  qed
next
  case (2 r s)
  show ?case
  proof (cases "wb_hash_empty s r")
    case True
    then show ?thesis by (simp add: nfs_inode_remove_request.simps shrunk_refl)
  next
    case False
    let ?s = "s\<lparr>writeback := removeAll r (writeback s), npages := npages s - 1\<rparr>"
    have "shrunk r s ?s"
      by (simp add: shrunk_def)
    moreover have "shrunk r ?s (nfs_release_request r ?s)"
      using "2.IH" [OF False] .
    ultimately show ?thesis
      using False by (simp add: nfs_inode_remove_request.simps shrunk_trans)
  qed
qed

lemma shrunk_empty: "shrunk r s s' \<Longrightarrow> wb_list_empty s r \<Longrightarrow> wb_list_empty s' r"
  by (auto simp: shrunk_def wb_list_empty_iff)

lemma shrunk_unhashed: "shrunk r s s' \<Longrightarrow> r \<notin> set (writeback s) \<Longrightarrow> r \<notin> set (writeback s')"
  by (auto simp: shrunk_def)

lemma shrunk_busy: "shrunk r s s' \<Longrightarrow> NFS_WBACK_BUSY (reqs s' r) = NFS_WBACK_BUSY (reqs s r)"
  by (simp add: shrunk_def NFS_WBACK_BUSY_def)

lemma shrunk_f_error: "shrunk r s s' \<Longrightarrow> f_error s' = f_error s"
  by (simp add: shrunk_def)

lemma inode_remove_unhashed: "r \<notin> set (writeback (nfs_inode_remove_request r s))"
proof (cases "wb_hash_empty s r")
  case True
  then show ?thesis
    by (simp add: nfs_inode_remove_request.simps wb_hash_empty_def)
next
  case False
  let ?s = "s\<lparr>writeback := removeAll r (writeback s), npages := npages s - 1\<rparr>"
  have "r \<notin> set (writeback ?s)"
    by simp
  with shrunk_release [of r ?s] have "r \<notin> set (writeback (nfs_release_request r ?s))"
    by (rule shrunk_unhashed)
  with False show ?thesis
    by (simp add: nfs_inode_remove_request.simps)
qed

lemma clear_busy: "\<not> NFS_WBACK_BUSY (q\<lparr>wb_flags := wb_flags q AND NOT PG_BUSY\<rparr>)"
  by (simp add: NFS_WBACK_BUSY_def and.assoc)

lemma unlock_not_busy: "\<not> NFS_WBACK_BUSY (reqs (nfs_unlock_request r s) r)"
proof (cases "NFS_WBACK_BUSY (reqs s r)")
  case False
  then show ?thesis by (simp add: nfs_unlock_request_def)
next
  case True
  let ?s = "(upd_req r (\<lambda>q. q\<lparr>wb_flags := wb_flags q AND NOT PG_BUSY\<rparr>) s)\<lparr>woken := r # woken s\<rparr>"
  have "\<not> NFS_WBACK_BUSY (reqs ?s r)"
    by (simp add: clear_busy)
  then have "\<not> NFS_WBACK_BUSY (reqs (nfs_release_request r ?s) r)"
    by (simp add: shrunk_busy [OF shrunk_release])
  with True show ?thesis
    by (simp add: nfs_unlock_request_def)
qed

text \<open>Unlocking keeps the lists and the hash as they are, or takes the request off.\<close>

lemma unlock_lists:
  "(lists (nfs_unlock_request r s) = lists s
      \<or> lists (nfs_unlock_request r s) = (\<lambda>h. removeAll r (lists s h)))
   \<and> (writeback (nfs_unlock_request r s) = writeback s
      \<or> writeback (nfs_unlock_request r s) = removeAll r (writeback s))
   \<and> f_error (nfs_unlock_request r s) = f_error s"
proof (cases "NFS_WBACK_BUSY (reqs s r)")
  case False
  then show ?thesis by (simp add: nfs_unlock_request_def)
next
  case True
  let ?s = "(upd_req r (\<lambda>q. q\<lparr>wb_flags := wb_flags q AND NOT PG_BUSY\<rparr>) s)\<lparr>woken := r # woken s\<rparr>"
  from shrunk_release [of r ?s] True show ?thesis
    by (simp add: nfs_unlock_request_def shrunk_def)
qed

lemma unlock_empty: "wb_list_empty s r \<Longrightarrow> wb_list_empty (nfs_unlock_request r s) r"
  using unlock_lists [of r s] by (auto simp: wb_list_empty_iff)

lemma unlock_unhashed: "r \<notin> set (writeback s) \<Longrightarrow> r \<notin> set (writeback (nfs_unlock_request r s))"
  using unlock_lists [of r s] by auto

lemma only_unlock: "only r s (nfs_unlock_request r s)"
proof (cases "NFS_WBACK_BUSY (reqs s r)")
  case False
  then show ?thesis by (simp add: nfs_unlock_request_def only_refl)
next
  case True
  let ?s = "(upd_req r (\<lambda>q. q\<lparr>wb_flags := wb_flags q AND NOT PG_BUSY\<rparr>) s)\<lparr>woken := r # woken s\<rparr>"
  have "only r s ?s"
    by (simp add: only_def)
  with only_release [of r ?s] True show ?thesis
    by (simp add: nfs_unlock_request_def only_trans)
qed

lemma only_mark_dirty: "only r s (nfs_mark_request_dirty r s)"
proof -
  have "only r (nfs_list_add_request r DIRTY s) ((nfs_list_add_request r DIRTY s)\<lparr>ndirty := ndirty s + 1\<rparr>)"
    by (rule only_same) simp_all
  with only_list_add [of r s DIRTY] show ?thesis
    by (auto simp: nfs_mark_request_dirty_def only_refl intro: only_trans)
qed

lemma only_mark_commit: "only r s (nfs_mark_request_commit r s)"
proof -
  have "only r (nfs_list_add_request r COMMIT s) ((nfs_list_add_request r COMMIT s)\<lparr>ncommit := ncommit s + 1\<rparr>)"
    by (rule only_same) simp_all
  with only_list_add [of r s COMMIT] show ?thesis
    by (auto simp: nfs_mark_request_commit_def only_refl intro: only_trans)
qed


lemma only_other:
  assumes "only r s s'" and "r' \<noteq> r"
  shows "reqs s' r' = reqs s r'"
    and "r' \<in> set (lists s' h) \<longleftrightarrow> r' \<in> set (lists s h)"
    and "r' \<in> set (writeback s') \<longleftrightarrow> r' \<in> set (writeback s)"
proof -
  from assms show "reqs s' r' = reqs s r'"
    by (simp add: only_def)
  from assms(1) have "set (removeAll r (lists s' h)) = set (removeAll r (lists s h))"
    by (simp add: only_def)
  with assms(2) show "r' \<in> set (lists s' h) \<longleftrightarrow> r' \<in> set (lists s h)"
    by auto
  from assms(1) have "set (removeAll r (writeback s')) = set (removeAll r (writeback s))"
    by (simp add: only_def)
  with assms(2) show "r' \<in> set (writeback s') \<longleftrightarrow> r' \<in> set (writeback s)"
    by auto
qed

lemma only_writeback_one: "only req s (writeback_one k status verf jiffies req s)"
proof -
  let ?s = "nfs_list_remove_request req s"
  have a: "only req s ?s"
    by (rule only_list_remove)
  have b: "only req ?s (nfs_inode_remove_request req
             (?s\<lparr>f_error := (f_error ?s)(wb_file (reqs ?s req) := status)\<rparr>))"
    by (rule only_trans [OF _ only_inode_remove]) (simp add: only_def)
  have c: "only req ?s (nfs_inode_remove_request req ?s)"
    by (rule only_inode_remove)
  have d: "only req ?s (nfs_mark_request_commit req
             (upd_req req (\<lambda>q. q\<lparr>wb_verf := verf, wb_timeout := jiffies + NFS_COMMIT_DELAY k\<rparr>) ?s))"
    by (rule only_trans [OF _ only_mark_commit]) (simp add: only_upd_req)
  show ?thesis
    unfolding writeback_one_def Let_def
    by (rule only_trans [OF _ only_unlock]) (auto intro: only_trans [OF a] b c d)
qed

lemma only_commit_one: "only req s (commit_one status verf req s)"
proof -
  let ?s = "nfs_list_remove_request req s"
  have a: "only req s ?s"
    by (rule only_list_remove)
  have b: "only req ?s (nfs_inode_remove_request req
             (?s\<lparr>f_error := (f_error ?s)(wb_file (reqs ?s req) := status)\<rparr>))"
    by (rule only_trans [OF _ only_inode_remove]) (simp add: only_def)
  have c: "only req ?s (nfs_inode_remove_request req ?s)"
    by (rule only_inode_remove)
  have d: "only req ?s (nfs_mark_request_dirty req ?s)"
    by (rule only_mark_dirty)
  show ?thesis
    unfolding commit_one_def Let_def
    by (rule only_trans [OF _ only_unlock]) (auto intro: only_trans [OF a] b c d)
qed

lemma list_remove_empty: "wb_list_empty (nfs_list_remove_request r s) r"
  by (simp add: wb_list_empty_iff lists_list_remove)

lemma list_remove_fields:
  "writeback (nfs_list_remove_request r s) = writeback s"
  "f_error (nfs_list_remove_request r s) = f_error s"
  "wb_file (reqs (nfs_list_remove_request r s) r') = wb_file (reqs s r')"
  "wb_verf (reqs (nfs_list_remove_request r s) r') = wb_verf (reqs s r')"
  "wb_count (reqs (nfs_list_remove_request r s) r') = wb_count (reqs s r')"
  "wb_flags (reqs (nfs_list_remove_request r s) r') = wb_flags (reqs s r')"
  "wb_page (reqs (nfs_list_remove_request r s) r') = wb_page (reqs s r')"
  "page_index (nfs_list_remove_request r s) = page_index s"
  by (simp_all add: nfs_list_remove_request_def)

text \<open>A request whose WRITE or COMMIT call failed is gone after its pass of the loop.\<close>

lemma removed_gone:
  assumes "wb_list_empty s r"
  shows "gone (nfs_unlock_request r (nfs_inode_remove_request r s)) r"
proof -
  let ?s = "nfs_inode_remove_request r s"
  have "wb_list_empty ?s r"
    using shrunk_inode_remove assms by (rule shrunk_empty)
  then have "wb_list_empty (nfs_unlock_request r ?s) r"
    by (rule unlock_empty)
  moreover have "r \<notin> set (writeback (nfs_unlock_request r ?s))"
    using inode_remove_unhashed by (rule unlock_unhashed)
  ultimately show ?thesis
    by (simp add: gone_def unlock_not_busy)
qed

lemma removed_f_error:
  "f_error (nfs_unlock_request r (nfs_inode_remove_request r s)) = f_error s"
  using unlock_lists [of r "nfs_inode_remove_request r s"]
  by (simp add: shrunk_f_error [OF shrunk_inode_remove])

lemma writeback_one_failed:
  assumes "status < 0"
  shows "gone (writeback_one k status verf jiffies req s) req"
    and "f_error (writeback_one k status verf jiffies req s)
           = (f_error s)(wb_file (reqs s req) := status)"
proof -
  let ?s = "nfs_list_remove_request req s"
  let ?t = "?s\<lparr>f_error := (f_error ?s)(wb_file (reqs ?s req) := status)\<rparr>"
  have eq: "writeback_one k status verf jiffies req s
              = nfs_unlock_request req (nfs_inode_remove_request req ?t)"
    using assms by (simp add: writeback_one_def Let_def)
  have "wb_list_empty ?t req"
    using list_remove_empty [of req s] by (simp add: wb_list_empty_def)
  then show "gone (writeback_one k status verf jiffies req s) req"
    unfolding eq by (rule removed_gone)
  show "f_error (writeback_one k status verf jiffies req s)
           = (f_error s)(wb_file (reqs s req) := status)"
    unfolding eq by (simp add: removed_f_error list_remove_fields)
qed

lemma commit_one_failed:
  assumes "status < 0"
  shows "gone (commit_one status verf req s) req"
    and "f_error (commit_one status verf req s) = (f_error s)(wb_file (reqs s req) := status)"
proof -
  let ?s = "nfs_list_remove_request req s"
  let ?t = "?s\<lparr>f_error := (f_error ?s)(wb_file (reqs ?s req) := status)\<rparr>"
  have eq: "commit_one status verf req s = nfs_unlock_request req (nfs_inode_remove_request req ?t)"
    using assms by (simp add: commit_one_def Let_def)
  have "wb_list_empty ?t req"
    using list_remove_empty [of req s] by (simp add: wb_list_empty_def)
  then show "gone (commit_one status verf req s) req"
    unfolding eq by (rule removed_gone)
  show "f_error (commit_one status verf req s) = (f_error s)(wb_file (reqs s req) := status)"
    unfolding eq by (simp add: removed_f_error list_remove_fields)
qed



lemma set_add_from_tail: "set (add_from_tail idx r ps) = insert r (set ps)"
  by (induction ps) auto

lemma set_list_add_sorted: "set (list_add_sorted idx r xs) = insert r (set xs)"
  by (simp add: list_add_sorted_def set_add_from_tail)

lemma release_dec:
  "wb_count (reqs s r) \<noteq> 1 \<Longrightarrow>
     nfs_release_request r s = upd_req r (\<lambda>q. q\<lparr>wb_count := wb_count q - 1\<rparr>) s"
  by (simp add: nfs_release_request.simps [of r s] Let_def)





lemma same_req_refl: "same_req r s s"
  by (simp add: same_req_def)

lemma same_req_trans: "same_req r s s1 \<Longrightarrow> same_req r s1 s2 \<Longrightarrow> same_req r s s2"
  by (simp add: same_req_def)

lemma only_same_req: "only r' s s' \<Longrightarrow> r \<noteq> r' \<Longrightarrow> same_req r s s'"
  by (simp add: same_req_def only_other)

lemma same_req_gone: "same_req r s s' \<Longrightarrow> gone s' r = gone s r"
  by (simp add: same_req_def gone_def wb_list_empty_iff)



lemma gone_off_list: "gone s r \<Longrightarrow> r \<notin> set (lists s h)"
  by (simp add: gone_def wb_list_empty_iff)

lemma lists_add_other: "h \<noteq> h' \<Longrightarrow> lists (nfs_list_add_request r h' s) h = lists s h"
  by (simp add: nfs_list_add_request_def)

lemma unlock_off_list: "r \<notin> set (lists s h) \<Longrightarrow> r \<notin> set (lists (nfs_unlock_request r s) h)"
  using unlock_lists [of r s] by auto

lemma inode_remove_off_list:
  "r \<notin> set (lists s h) \<Longrightarrow> r \<notin> set (lists (nfs_inode_remove_request r s) h)"
  using shrunk_inode_remove [of r s] by (auto simp: shrunk_def)

lemma list_remove_off_list: "r \<notin> set (lists (nfs_list_remove_request r s) h)"
  by (simp add: lists_list_remove)

lemma writeback_one_off_pages: "req \<notin> set (lists (writeback_one k status verf jiffies req s) PAGES)"
proof -
  let ?s = "nfs_list_remove_request req s"
  have a: "req \<notin> set (lists ?s PAGES)"
    by (rule list_remove_off_list)
  have b: "req \<notin> set (lists (nfs_mark_request_commit req
             (upd_req req (\<lambda>q. q\<lparr>wb_verf := verf, wb_timeout := jiffies + NFS_COMMIT_DELAY k\<rparr>) ?s)) PAGES)"
    using a by (simp add: nfs_mark_request_commit_def lists_add_other)
  have c: "req \<notin> set (lists (nfs_inode_remove_request req
             (?s\<lparr>f_error := (f_error ?s)(wb_file (reqs ?s req) := status)\<rparr>)) PAGES)"
    by (rule inode_remove_off_list) (use a in simp)
  have d: "req \<notin> set (lists (nfs_inode_remove_request req ?s) PAGES)"
    using a by (rule inode_remove_off_list)
  show ?thesis
    unfolding writeback_one_def Let_def
    by (rule unlock_off_list) (use b c d in auto)
qed


lemma writeback_one_unlocked: "\<not> NFS_WBACK_BUSY (reqs (writeback_one k status verf jiffies req s) req)"
  by (simp add: writeback_one_def Let_def unlock_not_busy)


subsection \<open>The loops of the completion handlers\<close>

lemma writeback_loop_Nil:
  "lists s PAGES = [] \<Longrightarrow> writeback_loop k status verf jiffies s = s"
  by (simp add: writeback_loop.simps [of k status verf jiffies s])

lemma writeback_loop_Cons:
  "lists s PAGES = req # rest \<Longrightarrow>
     writeback_loop k status verf jiffies s
       = writeback_loop k status verf jiffies (writeback_one k status verf jiffies req s)"
  by (simp add: writeback_loop.simps [of k status verf jiffies s])

lemma writeback_loop_same_req:
  "r \<notin> set (lists s PAGES) \<Longrightarrow> same_req r s (writeback_loop k status verf jiffies s)"
proof (induction k status verf jiffies s rule: writeback_loop.induct)
  case (1 k status verf jiffies s)
  show ?case
  proof (cases "lists s PAGES")
    case Nil
    then show ?thesis by (simp add: writeback_loop_Nil same_req_refl)
  next
    case (Cons req rest)
    let ?s = "writeback_one k status verf jiffies req s"
    from Cons "1.prems" have ne: "r \<noteq> req"
      by auto
    have step: "same_req r s ?s"
      using only_writeback_one ne by (rule only_same_req)
    with "1.prems" have "r \<notin> set (lists ?s PAGES)"
      by (simp add: same_req_def)
    from "1.IH" [OF Cons this] step show ?thesis
      by (simp add: writeback_loop_Cons [OF Cons] same_req_trans)
  qed
qed

lemma writeback_loop_kept_error:
  "status < 0 \<Longrightarrow> f_error s f = status \<Longrightarrow>
     f_error (writeback_loop k status verf jiffies s) f = status"
proof (induction k status verf jiffies s rule: writeback_loop.induct)
  case (1 k status verf jiffies s)
  show ?case
  proof (cases "lists s PAGES")
    case Nil
    with "1.prems" show ?thesis by (simp add: writeback_loop_Nil)
  next
    case (Cons req rest)
    have "f_error (writeback_one k status verf jiffies req s) f = status"
      using "1.prems" by (simp add: writeback_one_failed(2))
    from "1.IH" [OF Cons "1.prems"(1) this] show ?thesis
      by (simp add: writeback_loop_Cons [OF Cons])
  qed
qed

lemma writeback_loop_failed:
  "status < 0 \<Longrightarrow> r \<in> set (lists s PAGES) \<Longrightarrow>
     gone (writeback_loop k status verf jiffies s) r
     \<and> f_error (writeback_loop k status verf jiffies s) (wb_file (reqs s r)) = status"
proof (induction k status verf jiffies s rule: writeback_loop.induct)
  case (1 k status verf jiffies s)
  from "1.prems"(2) obtain req rest where Cons: "lists s PAGES = req # rest"
    by (cases "lists s PAGES") auto
  let ?s = "writeback_one k status verf jiffies req s"
  note loop = writeback_loop_Cons [OF Cons, of k status verf jiffies]
  show ?case
  proof (cases "r = req")
    case True
    have g: "gone ?s req"
      using "1.prems"(1) by (rule writeback_one_failed(1))
    then have "req \<notin> set (lists ?s PAGES)"
      by (rule gone_off_list)
    then have "same_req req ?s (writeback_loop k status verf jiffies ?s)"
      by (rule writeback_loop_same_req)
    with g have "gone (writeback_loop k status verf jiffies ?s) req"
      by (simp add: same_req_gone)
    moreover have "f_error ?s (wb_file (reqs s req)) = status"
      using "1.prems"(1) by (simp add: writeback_one_failed(2))
    then have "f_error (writeback_loop k status verf jiffies ?s) (wb_file (reqs s req)) = status"
      using "1.prems"(1) by (intro writeback_loop_kept_error)
    ultimately show ?thesis
      using True by (simp add: loop)
  next
    case False
    have step: "same_req r s ?s"
      using only_writeback_one False by (rule only_same_req)
    with "1.prems"(2) have "r \<in> set (lists ?s PAGES)"
      by (simp add: same_req_def)
    from "1.IH" [OF Cons "1.prems"(1) this] step show ?thesis
      by (simp add: loop same_req_def)
  qed
qed

lemma writeback_loop_unlocked:
  "r \<in> set (lists s PAGES) \<Longrightarrow> \<not> NFS_WBACK_BUSY (reqs (writeback_loop k status verf jiffies s) r)"
proof (induction k status verf jiffies s rule: writeback_loop.induct)
  case (1 k status verf jiffies s)
  from "1.prems" obtain req rest where Cons: "lists s PAGES = req # rest"
    by (cases "lists s PAGES") auto
  let ?s = "writeback_one k status verf jiffies req s"
  note loop = writeback_loop_Cons [OF Cons, of k status verf jiffies]
  show ?case
  proof (cases "r = req")
    case True
    have "same_req req ?s (writeback_loop k status verf jiffies ?s)"
      using writeback_one_off_pages by (rule writeback_loop_same_req)
    then show ?thesis
      using True writeback_one_unlocked [of k status verf jiffies req s]
      by (simp add: loop same_req_def)
  next
    case False
    have step: "same_req r s ?s"
      using only_writeback_one False by (rule only_same_req)
    with "1.prems" have "r \<in> set (lists ?s PAGES)"
      by (simp add: same_req_def)
    from "1.IH" [OF Cons this] show ?thesis
      by (simp add: loop)
  qed
qed

lemma writeback_loop_pages: "lists (writeback_loop k status verf jiffies s) PAGES = []"
proof (induction k status verf jiffies s rule: writeback_loop.induct)
  case (1 k status verf jiffies s)
  show ?case
  proof (cases "lists s PAGES")
    case Nil
    then show ?thesis by (simp add: writeback_loop_Nil)
  next
    case (Cons req rest)
    from "1.IH" [OF Cons] show ?thesis
      by (simp add: writeback_loop_Cons [OF Cons])
  qed
qed

lemma commit_loop_Nil:
  "lists s PAGES = [] \<Longrightarrow> commit_loop status verf s = s"
  by (simp add: commit_loop.simps [of status verf s])

lemma commit_loop_Cons:
  "lists s PAGES = req # rest \<Longrightarrow>
     commit_loop status verf s
       = commit_loop status verf (commit_one status verf req s)"
  by (simp add: commit_loop.simps [of status verf s])

lemma commit_loop_same_req:
  "r \<notin> set (lists s PAGES) \<Longrightarrow> same_req r s (commit_loop status verf s)"
proof (induction status verf s rule: commit_loop.induct)
  case (1 status verf s)
  show ?case
  proof (cases "lists s PAGES")
    case Nil
    then show ?thesis by (simp add: commit_loop_Nil same_req_refl)
  next
    case (Cons req rest)
    let ?s = "commit_one status verf req s"
    from Cons "1.prems" have ne: "r \<noteq> req"
      by auto
    have step: "same_req r s ?s"
      using only_commit_one ne by (rule only_same_req)
    with "1.prems" have "r \<notin> set (lists ?s PAGES)"
      by (simp add: same_req_def)
    from "1.IH" [OF Cons this] step show ?thesis
      by (simp add: commit_loop_Cons [OF Cons] same_req_trans)
  qed
qed

lemma commit_loop_kept_error:
  "status < 0 \<Longrightarrow> f_error s f = status \<Longrightarrow>
     f_error (commit_loop status verf s) f = status"
proof (induction status verf s rule: commit_loop.induct)
  case (1 status verf s)
  show ?case
  proof (cases "lists s PAGES")
    case Nil
    with "1.prems" show ?thesis by (simp add: commit_loop_Nil)
  next
    case (Cons req rest)
    have "f_error (commit_one status verf req s) f = status"
      using "1.prems" by (simp add: commit_one_failed(2))
    from "1.IH" [OF Cons "1.prems"(1) this] show ?thesis
      by (simp add: commit_loop_Cons [OF Cons])
  qed
qed

lemma commit_loop_failed:
  "status < 0 \<Longrightarrow> r \<in> set (lists s PAGES) \<Longrightarrow>
     gone (commit_loop status verf s) r
     \<and> f_error (commit_loop status verf s) (wb_file (reqs s r)) = status"
proof (induction status verf s rule: commit_loop.induct)
  case (1 status verf s)
  from "1.prems"(2) obtain req rest where Cons: "lists s PAGES = req # rest"
    by (cases "lists s PAGES") auto
  let ?s = "commit_one status verf req s"
  note loop = commit_loop_Cons [OF Cons, of status verf]
  show ?case
  proof (cases "r = req")
    case True
    have g: "gone ?s req"
      using "1.prems"(1) by (rule commit_one_failed(1))
    then have "req \<notin> set (lists ?s PAGES)"
      by (rule gone_off_list)
    then have "same_req req ?s (commit_loop status verf ?s)"
      by (rule commit_loop_same_req)
    with g have "gone (commit_loop status verf ?s) req"
      by (simp add: same_req_gone)
    moreover have "f_error ?s (wb_file (reqs s req)) = status"
      using "1.prems"(1) by (simp add: commit_one_failed(2))
    then have "f_error (commit_loop status verf ?s) (wb_file (reqs s req)) = status"
      using "1.prems"(1) by (intro commit_loop_kept_error)
    ultimately show ?thesis
      using True by (simp add: loop)
  next
    case False
    have step: "same_req r s ?s"
      using only_commit_one False by (rule only_same_req)
    with "1.prems"(2) have "r \<in> set (lists ?s PAGES)"
      by (simp add: same_req_def)
    from "1.IH" [OF Cons "1.prems"(1) this] step show ?thesis
      by (simp add: loop same_req_def)
  qed
qed






lemmas batch_defs = batch_state_def ex_state_def ex_page_def ex_consts_def server_verf_def

section \<open>A WRITE call that failed\<close>

text \<open>
  C2, amended. When the WRITE call completes with a negative status, the handler
  records the status as the error of the file of every request of the batch, takes every
  request of the batch off the inode's writeback list (the per-file index) and unlocks
  it; no request of the batch is put back on the dirty list, or on any list, and the
  \<^verbatim>\<open>pages\<close> list of the call is empty afterwards.
\<close>

theorem nfs_writeback_done_failed:
  assumes "tk_status < 0" and "r \<in> set (lists s PAGES)"
  shows "f_error (nfs_writeback_done k tk_status resp_count argp_count verf jiffies s)
           (wb_file (reqs s r)) = tk_status
     \<and> r \<notin> set (writeback (nfs_writeback_done k tk_status resp_count argp_count verf jiffies s))
     \<and> wb_list_empty (nfs_writeback_done k tk_status resp_count argp_count verf jiffies s) r
     \<and> r \<notin> set (lists (nfs_writeback_done k tk_status resp_count argp_count verf jiffies s) DIRTY)
     \<and> \<not> NFS_WBACK_BUSY (reqs (nfs_writeback_done k tk_status resp_count argp_count verf jiffies s) r)
     \<and> lists (nfs_writeback_done k tk_status resp_count argp_count verf jiffies s) PAGES = []"
proof -
  have eq: "nfs_writeback_done k tk_status resp_count argp_count verf jiffies s
              = writeback_loop k tk_status verf jiffies s"
    using assms(1) by (simp add: nfs_writeback_done_def)
  from writeback_loop_failed [OF assms, of k verf jiffies]
  have g: "gone (writeback_loop k tk_status verf jiffies s) r"
    and e: "f_error (writeback_loop k tk_status verf jiffies s) (wb_file (reqs s r)) = tk_status"
    by simp_all
  from g have "r \<notin> set (lists (writeback_loop k tk_status verf jiffies s) DIRTY)"
    by (rule gone_off_list)
  with g e show ?thesis
    unfolding eq by (simp add: gone_def writeback_loop_pages)
qed

theorem nfs_writeback_done_failed_witness:
  "(- 5 :: int) < 0 \<and> 1 \<in> set (lists batch_state PAGES)
   \<and> f_error (nfs_writeback_done ex_consts (- 5) 8192 8192 server_verf 0 batch_state) 7 = - 5
   \<and> 1 \<notin> set (writeback (nfs_writeback_done ex_consts (- 5) 8192 8192 server_verf 0 batch_state))
   \<and> 1 \<notin> set (lists (nfs_writeback_done ex_consts (- 5) 8192 8192 server_verf 0 batch_state) DIRTY)"
proof -
  have neg: "(- 5 :: int) < 0"
    by simp
  have mem: "1 \<in> set (lists batch_state PAGES)"
    by (simp add: batch_defs)
  have owner: "wb_file (reqs batch_state 1) = 7"
    by (simp add: batch_defs)
  from nfs_writeback_done_failed [OF neg mem, of ex_consts 8192 8192 server_verf 0] neg mem
  show ?thesis
    unfolding owner by blast
qed

text \<open>
  C2, as stated, fails: after a WRITE call that failed with \<open>-5\<close>, request 1 of the
  batch, hashed before the call completed, is not on the dirty list and is no longer on
  the inode's writeback list.
\<close>

theorem nfs_writeback_done_redirty_counterexample:
  "1 \<in> set (lists batch_state PAGES) \<and> 1 \<in> set (writeback batch_state)
   \<and> 1 \<notin> set (lists (nfs_writeback_done ex_consts (- 5) 8192 8192 server_verf 0 batch_state) DIRTY)
   \<and> 1 \<notin> set (writeback (nfs_writeback_done ex_consts (- 5) 8192 8192 server_verf 0 batch_state))"
proof -
  have mem: "1 \<in> set (lists batch_state PAGES)" and hashed: "1 \<in> set (writeback batch_state)"
    by (simp_all add: batch_defs)
  have eq: "nfs_writeback_done ex_consts (- 5) 8192 8192 server_verf 0 batch_state
              = writeback_loop ex_consts (- 5) server_verf 0 batch_state"
    by (simp add: nfs_writeback_done_def)
  have neg: "(- 5 :: int) < 0"
    by simp
  have "gone (writeback_loop ex_consts (- 5) server_verf 0 batch_state) 1"
    using writeback_loop_failed [OF neg mem, of ex_consts server_verf 0] by (rule conjunct1)
  then show ?thesis
    using mem hashed unfolding eq by (simp add: gone_def gone_off_list)
qed

section \<open>The error recorded on a file\<close>

text \<open>
  C6, as stated, fails: the file has the error \<open>-5\<close> recorded and not yet consumed; a
  WRITE call, or a COMMIT call, that fails with \<open>-28\<close> leaves \<open>-28\<close> as the file's
  error.
\<close>

theorem completion_error_overwritten_counterexample:
  "f_error batch_state 7 = - 5 \<and> 1 \<in> set (lists batch_state PAGES)
   \<and> wb_file (reqs batch_state 1) = 7
   \<and> f_error (nfs_writeback_done ex_consts (- 28) 8192 8192 server_verf 0 batch_state) 7 = - 28
   \<and> f_error (nfs_commit_done (- 28) server_verf batch_state) 7 = - 28"
proof -
  have mem: "1 \<in> set (lists batch_state PAGES)" and owner: "wb_file (reqs batch_state 1) = 7"
    and old: "f_error batch_state 7 = - 5"
    by (simp_all add: batch_defs)
  have eq: "nfs_writeback_done ex_consts (- 28) 8192 8192 server_verf 0 batch_state
              = writeback_loop ex_consts (- 28) server_verf 0 batch_state"
    by (simp add: nfs_writeback_done_def)
  have neg: "(- 28 :: int) < 0"
    by simp
  from writeback_loop_failed [OF neg mem, of ex_consts server_verf 0]
  have "f_error (writeback_loop ex_consts (- 28) server_verf 0 batch_state)
          (wb_file (reqs batch_state 1)) = - 28"
    by (rule conjunct2)
  then have w: "f_error (writeback_loop ex_consts (- 28) server_verf 0 batch_state) 7 = - 28"
    unfolding owner .
  from commit_loop_failed [OF neg mem, of server_verf]
  have "f_error (commit_loop (- 28) server_verf batch_state) (wb_file (reqs batch_state 1)) = - 28"
    by (rule conjunct2)
  then have c: "f_error (commit_loop (- 28) server_verf batch_state) 7 = - 28"
    unfolding owner .
  from mem owner old w c show ?thesis
    unfolding eq nfs_commit_done_def by blast
qed

text \<open>
  C6, amended. A failing completion of a WRITE or COMMIT call stores its own status as
  the error of the file of every request of its batch, whatever error was recorded
  before: the error a file holds is that of the last failing completion.
\<close>

theorem completion_error_overwritten:
  assumes "tk_status < 0" and "r \<in> set (lists s PAGES)"
  shows "f_error (nfs_writeback_done k tk_status resp_count argp_count verf jiffies s)
           (wb_file (reqs s r)) = tk_status
     \<and> f_error (nfs_commit_done tk_status verf s) (wb_file (reqs s r)) = tk_status"
proof -
  have eq: "nfs_writeback_done k tk_status resp_count argp_count verf jiffies s
              = writeback_loop k tk_status verf jiffies s"
    using assms(1) by (simp add: nfs_writeback_done_def)
  from writeback_loop_failed [OF assms, of k verf jiffies] commit_loop_failed [OF assms, of verf]
  show ?thesis
    unfolding eq nfs_commit_done_def by simp
qed

theorem completion_error_overwritten_witness:
  "(- 28 :: int) < 0 \<and> 1 \<in> set (lists batch_state PAGES) \<and> f_error batch_state 7 = - 5
   \<and> f_error (nfs_writeback_done ex_consts (- 28) 8192 8192 server_verf 0 batch_state) 7 = - 28
   \<and> f_error (nfs_commit_done (- 28) server_verf batch_state) 7 = - 28"
proof -
  have neg: "(- 28 :: int) < 0"
    by simp
  have mem: "1 \<in> set (lists batch_state PAGES)" and owner: "wb_file (reqs batch_state 1) = 7"
    and old: "f_error batch_state 7 = - 5"
    by (simp_all add: batch_defs)
  from completion_error_overwritten [OF neg mem, of ex_consts 8192 8192 server_verf 0] neg mem old
  show ?thesis
    unfolding owner by blast
qed

section \<open>Completion of a COMMIT call\<close>



section \<open>Widening a dirty request\<close>

declare update_find.simps [simp del]

lemma busy_set: "NFS_WBACK_BUSY (q\<lparr>wb_flags := wb_flags q OR PG_BUSY\<rparr>)"
  by (simp add: NFS_WBACK_BUSY_def PG_BUSY_def)

lemma unat_plus_fits: "unat (a::u32) + unat b < 2 ^ 32 \<Longrightarrow> unat (a + b) = unat a + unat b"
  by (simp add: unat_add_lem [THEN iffD1])

text \<open>The region update on a locked dirty request that the new range touches.\<close>

lemma update_region_widens:
  fixes offset :: ulong and bytes :: u32
  assumes own: "wb_file (reqs s r) = file" "wb_page (reqs s r) = page"
    and dirty: "nfs_dirty_request s r"
    and busy: "NFS_WBACK_BUSY (reqs s r)"
    and touch: "unat offset \<le> unat (wb_offset (reqs s r)) + unat (wb_bytes (reqs s r))"
               "unat (wb_offset (reqs s r)) \<le> unat offset + unat bytes"
    and fits: "unat offset + unat bytes < 2 ^ 32"
              "unat (wb_offset (reqs s r)) + unat (wb_bytes (reqs s r)) < 2 ^ 32"
    and refs: "wb_count (reqs s r) \<noteq> 1"
  defines "s' \<equiv> snd (update_region file page offset bytes r s)"
  shows "update_region file page offset bytes r s = (Inr r, s')"
    and "unat (wb_offset (reqs s' r)) = min (unat offset) (unat (wb_offset (reqs s r)))"
    and "unat (wb_offset (reqs s' r)) + unat (wb_bytes (reqs s' r))
           = max (unat offset + unat bytes) (unat (wb_offset (reqs s r)) + unat (wb_bytes (reqs s r)))"
    and "lists s' = lists s" and "writeback s' = writeback s"
    and "nfs_nr_requests s' = nfs_nr_requests s" and "page_index s' = page_index s"
    and "\<And>r'. r' \<noteq> r \<Longrightarrow> reqs s' r' = reqs s r'"
    and "wb_file (reqs s' r) = file" and "wb_page (reqs s' r) = page"
    and "wb_list_head (reqs s' r) = wb_list_head (reqs s r)"
    and "wb_count (reqs s' r) = wb_count (reqs s r) - 1"
    and "\<not> NFS_WBACK_BUSY (reqs s' r)"
proof -
  define q where "q = reqs s r"
  define rqend where "rqend = wb_offset q + wb_bytes q"
  define "end" where "end = offset + bytes"
  have u_rqend: "unat rqend = unat (wb_offset q) + unat (wb_bytes q)"
    unfolding rqend_def using fits(2) by (simp add: q_def unat_plus_fits)
  have u_end: "unat end = unat offset + unat bytes"
    unfolding end_def using fits(1) by (simp add: unat_plus_fits)
  have no1: "\<not> rqend < offset"
    using touch(1) by (simp add: word_less_nat_alt u_rqend q_def)
  have no2: "\<not> end < wb_offset q"
    using touch(2) by (simp add: word_less_nat_alt u_end q_def)
  define s1 where "s1 = (if offset < wb_offset q
                     then upd_req r (\<lambda>q. q\<lparr>wb_offset := offset, wb_bytes := rqend - offset\<rparr>) s
                     else s)"
  define s2 where "s2 = (if rqend < end
                     then upd_req r (\<lambda>q. q\<lparr>wb_bytes := end - wb_offset q\<rparr>) s1
                     else s1)"
  have reg: "update_region file page offset bytes r s = (Inr r, nfs_unlock_request r s2)"
    using own dirty no1 no2
    by (simp add: update_region_def Let_def q_def [symmetric] rqend_def [symmetric]
                  end_def [symmetric] s1_def [symmetric] s2_def [symmetric])
  have off1: "unat (wb_offset (reqs s1 r)) = min (unat offset) (unat (wb_offset q))"
    by (auto simp: s1_def q_def word_less_nat_alt)
  have le_rq: "offset \<le> rqend"
    using no1 by simp
  have end1: "unat (wb_offset (reqs s1 r)) + unat (wb_bytes (reqs s1 r)) = unat rqend"
    using le_rq by (auto simp: s1_def u_rqend q_def unat_sub word_le_nat_alt)
  have off2: "wb_offset (reqs s2 r) = wb_offset (reqs s1 r)"
    by (simp add: s2_def)
  have le_end: "wb_offset (reqs s1 r) \<le> end"
    using off1 no2 u_end by (simp add: word_le_nat_alt q_def)
  have end2: "unat (wb_offset (reqs s2 r)) + unat (wb_bytes (reqs s2 r)) = max (unat end) (unat rqend)"
  proof (cases "rqend < end")
    case True
    then have "unat (wb_bytes (reqs s2 r)) = unat end - unat (wb_offset (reqs s1 r))"
      using le_end by (simp add: s2_def unat_sub)
    with True le_end show ?thesis
      by (simp add: off2 word_less_nat_alt word_le_nat_alt)
  next
    case False
    then have "s2 = s1" by (simp add: s2_def)
    with False end1 show ?thesis
      by (simp add: word_less_nat_alt)
  qed
  have frame2: "lists s2 = lists s" "writeback s2 = writeback s"
    "nfs_nr_requests s2 = nfs_nr_requests s" "page_index s2 = page_index s"
    "wb_file (reqs s2 r) = file" "wb_page (reqs s2 r) = page"
    "wb_list_head (reqs s2 r) = wb_list_head (reqs s r)"
    "wb_count (reqs s2 r) = wb_count (reqs s r)" "wb_flags (reqs s2 r) = wb_flags (reqs s r)"
    using own by (simp_all add: s2_def s1_def)
  have others2: "reqs s2 r' = reqs s r'" if "r' \<noteq> r" for r'
    using that by (simp add: s2_def s1_def)
  have busy2: "NFS_WBACK_BUSY (reqs s2 r)"
    using busy by (simp add: NFS_WBACK_BUSY_def frame2)
  let ?c = "(upd_req r (\<lambda>q. q\<lparr>wb_flags := wb_flags q AND NOT PG_BUSY\<rparr>) s2)\<lparr>woken := r # woken s2\<rparr>"
  have "wb_count (reqs ?c r) \<noteq> 1"
    using refs by (simp add: frame2)
  then have "nfs_release_request r ?c = upd_req r (\<lambda>q. q\<lparr>wb_count := wb_count q - 1\<rparr>) ?c"
    by (rule release_dec)
  with busy2 have un: "nfs_unlock_request r s2 = upd_req r (\<lambda>q. q\<lparr>wb_count := wb_count q - 1\<rparr>) ?c"
    by (simp add: nfs_unlock_request_def)
  have s': "s' = nfs_unlock_request r s2"
    by (simp add: s'_def reg)
  show "update_region file page offset bytes r s = (Inr r, s')"
    by (simp add: reg s')
  show "unat (wb_offset (reqs s' r)) = min (unat offset) (unat (wb_offset (reqs s r)))"
    using off1 off2 by (simp add: s' un q_def)
  show "unat (wb_offset (reqs s' r)) + unat (wb_bytes (reqs s' r))
           = max (unat offset + unat bytes) (unat (wb_offset (reqs s r)) + unat (wb_bytes (reqs s r)))"
    using end2 by (simp add: s' un u_end u_rqend q_def)
  show "lists s' = lists s" "writeback s' = writeback s"
      "nfs_nr_requests s' = nfs_nr_requests s"
      "page_index s' = page_index s"
      "wb_file (reqs s' r) = file" "wb_page (reqs s' r) = page"
      "wb_list_head (reqs s' r) = wb_list_head (reqs s r)"
      "wb_count (reqs s' r) = wb_count (reqs s r) - 1"
    by (simp_all add: s' un frame2)
  show "reqs s' r' = reqs s r'" if "r' \<noteq> r" for r'
    using that by (simp add: s' un others2)
  show "\<not> NFS_WBACK_BUSY (reqs s' r)"
    unfolding s' by (rule unlock_not_busy)
qed

lemma count_after_lock: "(c::u32) + 1 \<noteq> 0 \<Longrightarrow> c + 1 + 1 \<noteq> 1"
proof
  assume n: "c + 1 \<noteq> 0" and "c + 1 + 1 = 1"
  then have "(c + 1) + 1 = 0 + 1"
    by simp
  then have "c + 1 = 0"
    by (rule add_right_imp_eq)
  with n show False
    by simp
qed

lemma update_request_found:
  fixes offset :: ulong and bytes :: u32 and k :: nfs_consts and locked :: bool
    and jiffies :: ulong and cred :: nat and ps :: "update_pass list"
  assumes found: "find (\<lambda>x. req_index s x = page_index s page) (writeback s) = Some r"
    and idle: "\<not> NFS_WBACK_BUSY (reqs s r)"
    and own: "wb_file (reqs s r) = file" "wb_page (reqs s r) = page"
    and dirty: "nfs_dirty_request s r"
    and touch: "unat offset \<le> unat (wb_offset (reqs s r)) + unat (wb_bytes (reqs s r))"
               "unat (wb_offset (reqs s r)) \<le> unat offset + unat bytes"
    and fits: "unat offset + unat bytes < 2 ^ 32"
              "unat (wb_offset (reqs s r)) + unat (wb_bytes (reqs s r)) < 2 ^ 32"
    and refs: "wb_count (reqs s r) + 1 \<noteq> 0"
  defines "s' \<equiv> snd (the (nfs_update_request k file page offset bytes locked jiffies cred ps s))"
  shows "nfs_update_request k file page offset bytes locked jiffies cred ps s = Some (Inr r, s')"
    and "unat (wb_offset (reqs s' r)) = min (unat offset) (unat (wb_offset (reqs s r)))"
    and "unat (wb_offset (reqs s' r)) + unat (wb_bytes (reqs s' r))
           = max (unat offset + unat bytes) (unat (wb_offset (reqs s r)) + unat (wb_bytes (reqs s r)))"
    and "lists s' = lists s" and "writeback s' = writeback s"
    and "nfs_nr_requests s' = nfs_nr_requests s" and "page_index s' = page_index s"
    and "\<And>r'. r' \<noteq> r \<Longrightarrow> reqs s' r' = reqs s r'"
    and "wb_file (reqs s' r) = file" and "wb_page (reqs s' r) = page"
    and "wb_list_head (reqs s' r) = wb_list_head (reqs s r)"
    and "wb_count (reqs s' r) = wb_count (reqs s r) + 1"
    and "\<not> NFS_WBACK_BUSY (reqs s' r)"
proof -
  let ?s1 = "upd_req r (\<lambda>q. q\<lparr>wb_count := wb_count q + 1\<rparr>) s"
  let ?s2 = "upd_req r (\<lambda>q. q\<lparr>wb_count := wb_count q + 1, wb_flags := wb_flags q OR PG_BUSY\<rparr>) ?s1"
  have fnd: "nfs_find_request page s = (Some r, ?s1)"
    using found by (simp add: nfs_find_request_def)
  have idle1: "\<not> NFS_WBACK_BUSY (reqs ?s1 r)"
    using idle by (simp add: NFS_WBACK_BUSY_def)
  then have lck: "nfs_lock_request r ?s1 = (True, ?s2)"
    by (simp add: nfs_lock_request_def)
  have loop: "update_find k file page offset bytes locked jiffies cred ps None s = Some (Inr r, ?s2)"
    by (simp add: fnd lck update_find.simps)
  have upd: "nfs_update_request k file page offset bytes locked jiffies cred ps s
               = Some (update_region file page offset bytes r ?s2)"
    by (simp add: nfs_update_request_def loop del: update_find.simps)
  have own2: "wb_file (reqs ?s2 r) = file" "wb_page (reqs ?s2 r) = page"
    using own by simp_all
  have dirty2: "nfs_dirty_request ?s2 r"
    using dirty by (simp add: nfs_dirty_request_def wb_list_empty_def)
  have busy2: "NFS_WBACK_BUSY (reqs ?s2 r)"
    by (simp add: NFS_WBACK_BUSY_def PG_BUSY_def)
  have touch2: "unat offset \<le> unat (wb_offset (reqs ?s2 r)) + unat (wb_bytes (reqs ?s2 r))"
    "unat (wb_offset (reqs ?s2 r)) \<le> unat offset + unat bytes"
    and fits2: "unat (wb_offset (reqs ?s2 r)) + unat (wb_bytes (reqs ?s2 r)) < 2 ^ 32"
    using touch fits(2) by simp_all
  have cnt2: "wb_count (reqs ?s2 r) = wb_count (reqs s r) + 1 + 1"
    by simp
  have refs2: "wb_count (reqs ?s2 r) \<noteq> 1"
    unfolding cnt2 by (rule count_after_lock [OF refs])
  note p = update_region_widens [OF own2 dirty2 busy2 touch2 fits(1) fits2 refs2]
  have s': "s' = snd (update_region file page offset bytes r ?s2)"
    by (simp add: s'_def upd)
  show "nfs_update_request k file page offset bytes locked jiffies cred ps s = Some (Inr r, s')"
    using p(1) by (simp add: upd s')
  show "unat (wb_offset (reqs s' r)) = min (unat offset) (unat (wb_offset (reqs s r)))"
    using p(2) by (simp add: s')
  show "unat (wb_offset (reqs s' r)) + unat (wb_bytes (reqs s' r))
           = max (unat offset + unat bytes) (unat (wb_offset (reqs s r)) + unat (wb_bytes (reqs s r)))"
    using p(3) by (simp add: s')
  show "lists s' = lists s" "writeback s' = writeback s" "nfs_nr_requests s' = nfs_nr_requests s"
      "page_index s' = page_index s"
    using p(4,5,6,7) by (simp_all add: s')
  show "reqs s' r' = reqs s r'" if "r' \<noteq> r" for r'
    using p(8) [OF that] that by (simp add: s')
  show "wb_file (reqs s' r) = file" "wb_page (reqs s' r) = page" "\<not> NFS_WBACK_BUSY (reqs s' r)"
    unfolding s' by (rule p(9) p(10) p(13))+
  show "wb_list_head (reqs s' r) = wb_list_head (reqs s r)"
    using p(11) by (simp add: s')
  show "wb_count (reqs s' r) = wb_count (reqs s r) + 1"
    using p(12) by (simp add: s')
qed


text \<open>
  C7. Let the request found for the page on the inode's writeback list be idle (not
  locked), belong to the file and the page of the write, and be on the dirty list, and
  let the new byte range overlap or abut the request's range (neither sum wrapping).
  Then \<^verbatim>\<open>nfs_update_request\<close> returns that request, widened in place: its offset is the
  smaller of the two starts and its end the larger of the two ends; the inode's
  writeback list, the lists and the global request count are as before, so no second
  request exists; the request is still dirty and is unlocked. Writing the same range
  again returns the same request with the same offset and length.
\<close>

theorem nfs_update_request_widens:
  fixes offset :: ulong and bytes :: u32 and k :: nfs_consts and locked :: bool
    and jiffies :: ulong and cred :: nat and ps :: "update_pass list"
  assumes found: "find (\<lambda>x. req_index s x = page_index s page) (writeback s) = Some r"
    and idle: "\<not> NFS_WBACK_BUSY (reqs s r)"
    and own: "wb_file (reqs s r) = file" "wb_page (reqs s r) = page"
    and dirty: "nfs_dirty_request s r"
    and touch: "unat offset \<le> unat (wb_offset (reqs s r)) + unat (wb_bytes (reqs s r))"
               "unat (wb_offset (reqs s r)) \<le> unat offset + unat bytes"
    and fits: "unat offset + unat bytes < 2 ^ 32"
              "unat (wb_offset (reqs s r)) + unat (wb_bytes (reqs s r)) < 2 ^ 32"
    and refs: "wb_count (reqs s r) + 1 \<noteq> 0" "wb_count (reqs s r) + 1 + 1 \<noteq> 0"
  shows "\<exists>s'. nfs_update_request k file page offset bytes locked jiffies cred ps s = Some (Inr r, s')
     \<and> unat (wb_offset (reqs s' r)) = min (unat offset) (unat (wb_offset (reqs s r)))
     \<and> unat (wb_offset (reqs s' r)) + unat (wb_bytes (reqs s' r))
           = max (unat offset + unat bytes) (unat (wb_offset (reqs s r)) + unat (wb_bytes (reqs s r)))
     \<and> writeback s' = writeback s \<and> lists s' = lists s \<and> nfs_nr_requests s' = nfs_nr_requests s
     \<and> nfs_dirty_request s' r \<and> \<not> NFS_WBACK_BUSY (reqs s' r)
     \<and> (\<exists>s''. nfs_update_request k file page offset bytes locked jiffies cred ps s' = Some (Inr r, s'')
            \<and> wb_offset (reqs s'' r) = wb_offset (reqs s' r)
            \<and> wb_bytes (reqs s'' r) = wb_bytes (reqs s' r)
            \<and> writeback s'' = writeback s \<and> nfs_nr_requests s'' = nfs_nr_requests s)"
proof -
  define s' where "s' = snd (the (nfs_update_request k file page offset bytes locked jiffies cred ps s))"
  note a = update_request_found [OF found idle own dirty touch fits refs(1),
              where k = k and locked = locked and jiffies = jiffies and cred = cred and ps = ps,
              folded s'_def]
  have dirty': "nfs_dirty_request s' r"
    using dirty by (simp add: nfs_dirty_request_def wb_list_empty_def a(4) a(11))
  have idx: "req_index s' x = req_index s x" for x
    using a(8) [of x] own(2) by (cases "x = r") (simp_all add: req_index_def a(7) a(10))
  have found': "find (\<lambda>x. req_index s' x = page_index s' page) (writeback s') = Some r"
    using found by (simp add: idx a(5) a(7))
  have touch': "unat offset \<le> unat (wb_offset (reqs s' r)) + unat (wb_bytes (reqs s' r))"
    "unat (wb_offset (reqs s' r)) \<le> unat offset + unat bytes"
  proof -
    have "unat offset \<le> max (unat offset + unat bytes)
             (unat (wb_offset (reqs s r)) + unat (wb_bytes (reqs s r)))"
      by simp
    then show "unat offset \<le> unat (wb_offset (reqs s' r)) + unat (wb_bytes (reqs s' r))"
      by (simp only: a(3))
    show "unat (wb_offset (reqs s' r)) \<le> unat offset + unat bytes"
      by (simp add: a(2))
  qed
  have fits': "unat (wb_offset (reqs s' r)) + unat (wb_bytes (reqs s' r)) < 2 ^ 32"
    using fits by (simp add: a(3))
  have refs': "wb_count (reqs s' r) + 1 \<noteq> 0"
    unfolding a(12) by (rule refs(2))
  define s'' where "s'' = snd (the (nfs_update_request k file page offset bytes locked jiffies cred ps s'))"
  note b = update_request_found [OF found' a(13) a(9) a(10) dirty' touch' fits(1) fits' refs',
              where k = k and locked = locked and jiffies = jiffies and cred = cred and ps = ps,
              folded s''_def]
  have "unat (wb_offset (reqs s'' r)) = unat (wb_offset (reqs s' r))"
    using touch'(2) by (simp add: b(2) a(2))
  then have off: "wb_offset (reqs s'' r) = wb_offset (reqs s' r)"
    by (simp only: word_unat_eq_iff)
  have "unat offset + unat bytes \<le> unat (wb_offset (reqs s' r)) + unat (wb_bytes (reqs s' r))"
    unfolding a(3) by simp
  then have "unat (wb_offset (reqs s'' r)) + unat (wb_bytes (reqs s'' r))
          = unat (wb_offset (reqs s' r)) + unat (wb_bytes (reqs s' r))"
    unfolding b(3) by simp
  then have "unat (wb_bytes (reqs s'' r)) = unat (wb_bytes (reqs s' r))"
    by (simp add: off)
  then have len: "wb_bytes (reqs s'' r) = wb_bytes (reqs s' r)"
    by (simp only: word_unat_eq_iff)
  have second: "\<exists>s''. nfs_update_request k file page offset bytes locked jiffies cred ps s' = Some (Inr r, s'')
            \<and> wb_offset (reqs s'' r) = wb_offset (reqs s' r)
            \<and> wb_bytes (reqs s'' r) = wb_bytes (reqs s' r)
            \<and> writeback s'' = writeback s \<and> nfs_nr_requests s'' = nfs_nr_requests s"
    using b(1) off len by (intro exI [of _ s'']) (simp add: b(5) b(6) a(5) a(6))
  show ?thesis
    using a(1) a(2) a(3) a(4) a(5) a(6) a(13) dirty' second by (intro exI [of _ s']) simp
qed

theorem nfs_update_request_widens_witness:
  "find (\<lambda>x. req_index dirty_state x = page_index dirty_state 0) (writeback dirty_state) = Some 1
   \<and> \<not> NFS_WBACK_BUSY (reqs dirty_state 1) \<and> nfs_dirty_request dirty_state 1
   \<and> (\<exists>s'. nfs_update_request ex_consts 7 0 100 50 False 0 0 [] dirty_state = Some (Inr 1, s')
         \<and> unat (wb_offset (reqs s' 1)) = 0
         \<and> unat (wb_offset (reqs s' 1)) + unat (wb_bytes (reqs s' 1)) = 150
         \<and> writeback s' = [1])"
proof -
  note defs = dirty_state_def ex_state_def ex_page_def
  have found: "find (\<lambda>x. req_index dirty_state x = page_index dirty_state 0) (writeback dirty_state) = Some 1"
    by (simp add: req_index_def defs)
  have idle: "\<not> NFS_WBACK_BUSY (reqs dirty_state 1)"
    by (simp add: NFS_WBACK_BUSY_def defs)
  have own: "wb_file (reqs dirty_state 1) = 7" "wb_page (reqs dirty_state 1) = 0"
    by (simp_all add: defs)
  have dirty: "nfs_dirty_request dirty_state 1"
    by (simp add: nfs_dirty_request_def wb_list_empty_def all_heads_def defs)
  have touch: "unat (100 :: ulong) \<le> unat (wb_offset (reqs dirty_state 1)) + unat (wb_bytes (reqs dirty_state 1))"
    "unat (wb_offset (reqs dirty_state 1)) \<le> unat (100 :: ulong) + unat (50 :: u32)"
    by (simp_all add: defs)
  have fits: "unat (100 :: ulong) + unat (50 :: u32) < 2 ^ 32"
    "unat (wb_offset (reqs dirty_state 1)) + unat (wb_bytes (reqs dirty_state 1)) < 2 ^ 32"
    by (simp_all add: defs)
  have refs: "wb_count (reqs dirty_state 1) + 1 \<noteq> 0" "wb_count (reqs dirty_state 1) + 1 + 1 \<noteq> 0"
    by (simp_all add: defs)
  have vals: "min (unat (100 :: ulong)) (unat (wb_offset (reqs dirty_state 1))) = 0"
    "max (unat (100 :: ulong) + unat (50 :: u32))
         (unat (wb_offset (reqs dirty_state 1)) + unat (wb_bytes (reqs dirty_state 1))) = 150"
    "writeback dirty_state = [1]"
    by (simp_all add: defs)
  from nfs_update_request_widens [OF found idle own dirty touch fits refs,
         where k = ex_consts and locked = False and jiffies = 0 and cred = 0 and ps = "[]"]
  have "\<exists>s'. nfs_update_request ex_consts 7 0 100 50 False 0 0 [] dirty_state = Some (Inr 1, s')
         \<and> unat (wb_offset (reqs s' 1)) = 0
         \<and> unat (wb_offset (reqs s' 1)) + unat (wb_bytes (reqs s' 1)) = 150
         \<and> writeback s' = [1]"
    unfolding vals by blast
  with found idle dirty show ?thesis
    by blast
qed

section \<open>Membership in at most one list\<close>

lemma single_iff:
  "single s \<longleftrightarrow>
     (\<forall>h. distinct (lists s h)) \<and> (\<forall>h h'. h \<noteq> h' \<longrightarrow> set (lists s h) \<inter> set (lists s h') = {})"
proof -
  have all: "(\<forall>h \<in> set all_heads. P h) \<longleftrightarrow> (\<forall>h. P h)" for P
  proof
    assume a: "\<forall>h \<in> set all_heads. P h"
    show "\<forall>h. P h"
    proof
      fix h show "P h"
        using a by (cases h) (simp_all add: all_heads_def)
    qed
  qed simp
  show ?thesis
    unfolding single_def list_all_iff all by blast
qed

lemma single_same: "lists s' = lists s \<Longrightarrow> single s \<Longrightarrow> single s'"
  by (simp add: single_iff)

lemma single_removed:
  assumes "single s" and "lists s' = (\<lambda>h. removeAll r (lists s h))"
  shows "single s'"
  unfolding single_iff
proof (intro conjI allI impI)
  fix h show "distinct (lists s' h)"
    using assms by (simp add: single_iff distinct_removeAll)
next
  fix h h' :: list_head
  assume "h \<noteq> h'"
  with assms(1) have "set (lists s h) \<inter> set (lists s h') = {}"
    by (simp add: single_iff)
  then show "set (lists s' h) \<inter> set (lists s' h') = {}"
    by (auto simp: assms(2))
qed

lemma distinct_add_from_tail:
  "distinct ps \<Longrightarrow> r \<notin> set ps \<Longrightarrow> distinct (add_from_tail idx r ps)"
  by (induction ps) (auto simp: set_add_from_tail)

lemma distinct_list_add_sorted:
  "distinct xs \<Longrightarrow> r \<notin> set xs \<Longrightarrow> distinct (list_add_sorted idx r xs)"
  by (simp add: list_add_sorted_def distinct_add_from_tail)

lemma single_added:
  assumes "single s" and "wb_list_empty s r"
    and "lists s' = (lists s)(h := list_add_sorted idx r (lists s h))"
  shows "single s'"
  unfolding single_iff
proof (intro conjI allI impI)
  fix g show "distinct (lists s' g)"
    using assms by (simp add: single_iff wb_list_empty_iff distinct_list_add_sorted)
next
  fix g g' :: list_head
  assume ne: "g \<noteq> g'"
  with assms(1) have dj: "set (lists s g) \<inter> set (lists s g') = {}"
    by (simp add: single_iff)
  from assms(2) have out: "r \<notin> set (lists s g)" "r \<notin> set (lists s g')"
    by (simp_all add: wb_list_empty_iff)
  show "set (lists s' g) \<inter> set (lists s' g') = {}"
    using ne dj out by (auto simp: assms(3) set_list_add_sorted)
qed

lemma single_list_remove:
  assumes "single s"
  shows "single (nfs_list_remove_request r s)"
  using assms lists_list_remove by (rule single_removed)

lemma single_list_add:
  assumes a: "single s"
  shows "single (nfs_list_add_request r h s)"
proof (cases "wb_list_empty s r \<and> \<not> wb_hash_empty s r")
  case True
  then have "lists (nfs_list_add_request r h s)
               = (lists s)(h := list_add_sorted (req_index s) r (lists s h))"
    by (simp add: nfs_list_add_request_def)
  then show ?thesis
    using a True by (intro single_added [OF a, of r _ h "req_index s"]) simp_all
next
  case False
  then have "nfs_list_add_request r h s = s"
    by (auto simp: nfs_list_add_request_def)
  with a show ?thesis
    by simp
qed

lemma single_shrunk:
  assumes "shrunk r s s'" and "single s"
  shows "single s'"
proof -
  from assms(1) have "lists s' = lists s \<or> lists s' = (\<lambda>h. removeAll r (lists s h))"
    by (simp add: shrunk_def)
  then show ?thesis
  proof
    assume "lists s' = lists s"
    then show ?thesis using assms(2) by (rule single_same)
  next
    assume "lists s' = (\<lambda>h. removeAll r (lists s h))"
    with assms(2) show ?thesis by (rule single_removed)
  qed
qed

lemma single_release: "single s \<Longrightarrow> single (nfs_release_request r s)"
  using shrunk_release by (rule single_shrunk)

lemma single_inode_remove: "single s \<Longrightarrow> single (nfs_inode_remove_request r s)"
  using shrunk_inode_remove by (rule single_shrunk)

lemma single_inode_add: "single s \<Longrightarrow> single (nfs_inode_add_request r s)"
proof -
  have "lists (nfs_inode_add_request r s) = lists s"
    by (simp add: nfs_inode_add_request_def)
  then show "single s \<Longrightarrow> single (nfs_inode_add_request r s)"
    by (rule single_same)
qed

lemma single_lock: "single s \<Longrightarrow> single (snd (nfs_lock_request r s))"
proof -
  have "lists (snd (nfs_lock_request r s)) = lists s"
    by (simp add: nfs_lock_request_def)
  then show "single s \<Longrightarrow> single (snd (nfs_lock_request r s))"
    by (rule single_same)
qed

lemma single_unlock:
  assumes "single s"
  shows "single (nfs_unlock_request r s)"
proof -
  from unlock_lists [of r s]
  have "lists (nfs_unlock_request r s) = lists s
          \<or> lists (nfs_unlock_request r s) = (\<lambda>h. removeAll r (lists s h))"
    by (rule conjunct1)
  then show ?thesis
  proof
    assume "lists (nfs_unlock_request r s) = lists s"
    then show ?thesis using assms by (rule single_same)
  next
    assume "lists (nfs_unlock_request r s) = (\<lambda>h. removeAll r (lists s h))"
    with assms show ?thesis by (rule single_removed)
  qed
qed

lemma single_mark_dirty: "single s \<Longrightarrow> single (nfs_mark_request_dirty r s)"
proof -
  assume a: "single s"
  have "single ((nfs_list_add_request r DIRTY s)\<lparr>ndirty := ndirty s + 1\<rparr>)"
    by (rule single_same [OF _ single_list_add [OF a]]) simp
  with a show ?thesis
    by (simp add: nfs_mark_request_dirty_def)
qed

lemma single_mark_commit: "single s \<Longrightarrow> single (nfs_mark_request_commit r s)"
proof -
  assume a: "single s"
  have "single ((nfs_list_add_request r COMMIT s)\<lparr>ncommit := ncommit s + 1\<rparr>)"
    by (rule single_same [OF _ single_list_add [OF a]]) simp
  with a show ?thesis
    by (simp add: nfs_mark_request_commit_def)
qed

lemma single_scan_loop:
  "single s \<Longrightarrow> single (snd (scan_loop dst file idx_start idx_end ps pages s))"
proof (induction ps arbitrary: pages s)
  case Nil
  then show ?case by simp
next
  case (Cons req ps)
  have moved: "single (nfs_list_add_request req dst (nfs_list_remove_request req (snd (nfs_lock_request req s))))"
    by (intro single_list_add single_list_remove single_lock Cons.prems)
  have locked: "single (snd (nfs_lock_request req s))"
    by (intro single_lock Cons.prems)
  show ?case
    using Cons.IH [OF Cons.prems] Cons.IH [OF moved] Cons.IH [OF locked]
    by (auto split: prod.splits bool.splits)
qed

lemma single_scan_list: "single s \<Longrightarrow> single (snd (nfs_scan_list k src dst file start count s))"
  by (simp add: nfs_scan_list_def Let_def single_scan_loop)

lemma single_scan_dirty: "single s \<Longrightarrow> single (snd (nfs_scan_dirty k dst file start count s))"
proof -
  assume "single s"
  then have "single (snd (nfs_scan_list k DIRTY dst file start count s))"
    by (rule single_scan_list)
  then show ?thesis
    by (auto simp: nfs_scan_dirty_def split: prod.splits intro: single_same [rotated])
qed

lemma single_scan_commit: "single s \<Longrightarrow> single (snd (nfs_scan_commit k dst file start count s))"
proof -
  assume "single s"
  then have "single (snd (nfs_scan_list k COMMIT dst file start count s))"
    by (rule single_scan_list)
  then show ?thesis
    by (auto simp: nfs_scan_commit_def split: prod.splits intro: single_same [rotated])
qed

lemma single_coalesce_loop:
  "single s \<Longrightarrow> single (snd (coalesce_loop k src dst maxpages prev pages s))"
proof (induction k src dst maxpages prev pages s rule: coalesce_loop.induct)
  case (1 k src dst maxpages prev pages s)
  show ?case
  proof (cases "lists s src")
    case Nil
    with "1.prems" show ?thesis
      by (simp add: coalesce_loop.simps [of k src dst maxpages prev pages s])
  next
    case (Cons req rest)
    define s1 where "s1 = nfs_list_add_request req dst (nfs_list_remove_request req s)"
    have s1: "single s1"
      unfolding s1_def by (intro single_list_add single_list_remove "1.prems")
    show ?thesis
    proof (cases "coalesce_stop s prev req
                   \<or> wb_offset (reqs s1 req) + wb_bytes (reqs s1 req) \<noteq> PAGE_CACHE_SIZE k
                   \<or> maxpages \<le> pages + 1")
      case True
      with "1.prems" s1 Cons show ?thesis
        by (auto simp: coalesce_loop.simps [of k src dst maxpages prev pages s] Let_def
                       s1_def [symmetric])
    next
      case False
      then have "single (snd (coalesce_loop k src dst maxpages (Some req) (pages + 1) s1))"
        by (intro "1.IH" [OF Cons _ s1_def _ _ s1]) simp_all
      with False Cons show ?thesis
        by (simp add: coalesce_loop.simps [of k src dst maxpages prev pages s] Let_def
                      s1_def [symmetric])
    qed
  qed
qed

lemma single_writeback_one: "single s \<Longrightarrow> single (writeback_one k status verf jiffies req s)"
proof -
  assume a: "single s"
  let ?s = "nfs_list_remove_request req s"
  have b: "single ?s"
    using a by (rule single_list_remove)
  have c: "single (?s\<lparr>f_error := (f_error ?s)(wb_file (reqs ?s req) := status)\<rparr>)"
    by (rule single_same [OF _ b]) simp
  have d: "single (upd_req req (\<lambda>q. q\<lparr>wb_verf := verf, wb_timeout := jiffies + NFS_COMMIT_DELAY k\<rparr>) ?s)"
    by (rule single_same [OF _ b]) simp
  show ?thesis
    unfolding writeback_one_def Let_def
    by (intro single_unlock) (auto intro: single_inode_remove single_mark_commit b c d)
qed

lemma single_commit_one: "single s \<Longrightarrow> single (commit_one status verf req s)"
proof -
  assume a: "single s"
  let ?s = "nfs_list_remove_request req s"
  have b: "single ?s"
    using a by (rule single_list_remove)
  have c: "single (?s\<lparr>f_error := (f_error ?s)(wb_file (reqs ?s req) := status)\<rparr>)"
    by (rule single_same [OF _ b]) simp
  show ?thesis
    unfolding commit_one_def Let_def
    by (intro single_unlock) (auto intro: single_inode_remove single_mark_dirty b c)
qed

lemma single_writeback_loop: "single s \<Longrightarrow> single (writeback_loop k status verf jiffies s)"
proof (induction k status verf jiffies s rule: writeback_loop.induct)
  case (1 k status verf jiffies s)
  show ?case
  proof (cases "lists s PAGES")
    case Nil
    with "1.prems" show ?thesis by (simp add: writeback_loop_Nil)
  next
    case (Cons req rest)
    from "1.IH" [OF Cons single_writeback_one [OF "1.prems"]] show ?thesis
      by (simp add: writeback_loop_Cons [OF Cons])
  qed
qed

lemma single_commit_loop: "single s \<Longrightarrow> single (commit_loop status verf s)"
proof (induction status verf s rule: commit_loop.induct)
  case (1 status verf s)
  show ?case
  proof (cases "lists s PAGES")
    case Nil
    with "1.prems" show ?thesis by (simp add: commit_loop_Nil)
  next
    case (Cons req rest)
    from "1.IH" [OF Cons single_commit_one [OF "1.prems"]] show ?thesis
      by (simp add: commit_loop_Cons [OF Cons])
  qed
qed

lemma single_upd_req: "single s \<Longrightarrow> single (upd_req r f s)"
  by (rule single_same [where s = s]) simp_all

lemma single_find: "single s \<Longrightarrow> single (snd (nfs_find_request page s))"
  by (simp add: nfs_find_request_def single_upd_req split: option.splits)

lemma single_wait:
  assumes "single s" and "keeps_single others"
  shows "single (nfs_wait_on_request r others s)"
  using assms by (simp add: nfs_wait_on_request_def keeps_single_def single_upd_req single_release)

lemma single_create_wait:
  assumes "\<forall>e \<in> set es. keeps_single (wb_file_effect e) \<and> keeps_single (sleep_effect e)"
    and "single s" and "create_wait k es s = Some (x, s')"
  shows "single s'"
  using assms
proof (induction es arbitrary: s)
  case Nil
  then show ?case by simp
next
  case (Cons e es)
  from Cons.prems(1) have e: "keeps_single (wb_file_effect e)" "keeps_single (sleep_effect e)"
    and rest: "\<forall>e \<in> set es. keeps_single (wb_file_effect e) \<and> keeps_single (sleep_effect e)"
    by simp_all
  have s1: "single (after_soft_limit k e s)"
    using Cons.prems(2) e(1) by (simp add: after_soft_limit_def keeps_single_def)
  then have s2: "single (sleep_effect e (after_soft_limit k e s))"
    using e(2) by (simp add: keeps_single_def)
  from Cons.prems(3) s1 s2 Cons.IH [OF rest s2] show ?case
    by (auto simp: Let_def split: if_splits)
qed

lemma single_create:
  assumes "\<forall>e \<in> set es. keeps_single (wb_file_effect e) \<and> keeps_single (sleep_effect e)"
    and "single s"
    and "nfs_create_request k file page offset count locked jiffies cred es s = Some (x, s')"
  shows "single s'"
proof (cases "create_wait k es s")
  case None
  with assms(3) show ?thesis by (simp add: nfs_create_request_def)
next
  case (Some a)
  obtain y s1 where a: "a = (y, s1)" by (cases a)
  have s1: "single s1"
    using assms(1,2) Some [unfolded a] by (rule single_create_wait)
  show ?thesis
  proof (cases y)
    case None
    with assms(3) Some a s1 show ?thesis by (simp add: nfs_create_request_def)
  next
    case (Some r)
    with assms(3) \<open>create_wait k es s = Some a\<close> a have "lists s' = lists s1"
      by (auto simp: nfs_create_request_def)
    then show ?thesis using s1 by (rule single_same)
  qed
qed

lemma single_update_find:
  assumes "single_passes ps" and "single s"
    and "update_find k fl page offset bytes locked jiffies cred ps new s = Some (x, s')"
  shows "single s'"
  using assms
proof (induction k fl page offset bytes locked jiffies cred ps new s rule: update_find.induct)
  case (1 k fl page offset bytes locked jiffies cred ps new s)
  obtain fr s1 where f: "nfs_find_request page s = (fr, s1)" by (cases "nfs_find_request page s")
  have s1: "single s1"
    using single_find [OF "1.prems"(2), of page] by (simp add: f)
  show ?case
  proof (cases fr)
    case (Some req)
    obtain b s2 where l: "nfs_lock_request req s1 = (b, s2)" by (cases "nfs_lock_request req s1")
    have s2: "single s2"
      using single_lock [OF s1, of req] by (simp add: l)
    show ?thesis
    proof (cases b)
      case True
      with "1.prems"(3) f Some l s2 show ?thesis
        by (auto simp: update_find.simps [of _ _ _ _ _ _ _ _ _ _ s] single_release
                 split: option.splits)
    next
      case False
      show ?thesis
      proof (cases ps)
        case Nil
        with "1.prems"(3) f Some l False show ?thesis
          by (simp add: update_find.simps [of _ _ _ _ _ _ _ _ _ _ s])
      next
        case (Cons p ps')
        from "1.prems"(1) Cons have kp: "keeps_single (wait_effect p)" and rest: "single_passes ps'"
          by (simp_all add: single_passes_def)
        have s3: "single (nfs_release_request req (nfs_wait_on_request req (wait_effect p) s2))"
          by (intro single_release single_wait s2 kp)
        from "1.prems"(3) f Some l False Cons
        have "update_find k fl page offset bytes locked jiffies cred ps' new
                (nfs_release_request req (nfs_wait_on_request req (wait_effect p) s2)) = Some (x, s')"
          by (simp add: update_find.simps [of _ _ _ _ _ _ _ _ _ _ s])
        moreover from False have "b = False"
          by simp
        ultimately show ?thesis
          using "1.IH"(2) [OF f [symmetric] Some l [symmetric] _ Cons rest s3] by simp
      qed
    qed
  next
    case None
    show ?thesis
    proof (cases new)
      case (Some n)
      have "single (nfs_mark_request_dirty n (nfs_inode_add_request n (snd (nfs_lock_request n s1))))"
        by (intro single_mark_dirty single_inode_add single_lock s1)
      with "1.prems"(3) f None Some show ?thesis
        by (auto simp: update_find.simps [of _ _ _ _ _ _ _ _ _ _ s])
    next
      case nn: None
      show ?thesis
      proof (cases ps)
        case Nil
        with "1.prems"(3) f None nn show ?thesis
          by (simp add: update_find.simps [of _ _ _ _ _ _ _ _ _ _ s])
      next
        case (Cons p ps')
        from "1.prems"(1) Cons
        have kp: "\<forall>e \<in> set (create_passes p). keeps_single (wb_file_effect e) \<and> keeps_single (sleep_effect e)"
          and rest: "single_passes ps'"
          by (simp_all add: single_passes_def)
        show ?thesis
        proof (cases "nfs_create_request k fl page offset bytes locked jiffies cred (create_passes p) s1")
          case cn: None
          with "1.prems"(3) f None nn Cons show ?thesis
            by (simp add: update_find.simps [of _ _ _ _ _ _ _ _ _ _ s])
        next
          case cr: (Some a)
          obtain y s2 where a: "a = (y, s2)" by (cases a)
          have s2: "single s2"
            using kp s1 cr [unfolded a] by (rule single_create)
          show ?thesis
          proof (cases y)
            case yn: None
            with "1.prems"(3) f None nn Cons cr a s2 show ?thesis
              by (auto simp: update_find.simps [of _ _ _ _ _ _ _ _ _ _ s])
          next
            case (Some n)
            from "1.prems"(3) f None nn Cons cr a Some
            have "update_find k fl page offset bytes locked jiffies cred ps' (Some n) s2 = Some (x, s')"
              by (simp add: update_find.simps [of _ _ _ _ _ _ _ _ _ _ s])
            with "1.IH"(1) [OF f [symmetric] None nn Cons cr a [symmetric] Some rest s2]
            show ?thesis
              by simp
          qed
        qed
      qed
    qed
  qed
qed

lemma single_update_region: "single s \<Longrightarrow> single (snd (update_region fl page offset bytes req s))"
  by (simp add: update_region_def Let_def single_release single_unlock single_upd_req)

lemma single_update:
  assumes "single_passes ps" and "single s"
    and "nfs_update_request k file page offset bytes locked jiffies cred ps s = Some (x, s')"
  shows "single s'"
proof (cases "update_find k file page offset bytes locked jiffies cred ps None s")
  case None
  with assms(3) show ?thesis by (simp add: nfs_update_request_def)
next
  case (Some a)
  obtain y s1 where a: "a = (y, s1)" by (cases a)
  have s1: "single s1"
    using assms(1,2) Some [unfolded a] by (rule single_update_find)
  show ?thesis
  proof (cases y)
    case (Inl e)
    with assms(3) Some a s1 show ?thesis by (simp add: nfs_update_request_def)
  next
    case (Inr req)
    with assms(3) Some a have "s' = snd (update_region file page offset bytes req s1)"
      by (auto simp: nfs_update_request_def)
    then show ?thesis using s1 by (simp add: single_update_region)
  qed
qed

text \<open>
  C8. In a state where no request is on a list twice and no request is on two lists, no
  request is on both the dirty list and the commit list, and every operation leaves such
  a state: inserting into and removing from a list, hashing and unhashing, releasing,
  locking and unlocking, marking dirty, marking for commit, scanning the dirty and the
  commit list, coalescing, the completion handlers of the WRITE and COMMIT calls, and a
  write through \<^verbatim>\<open>nfs_update_request\<close> when the tasks that run while it sleeps leave
  such a state too.
\<close>

theorem single_membership:
  assumes "single s"
  shows "\<not> (r \<in> set (lists s DIRTY) \<and> r \<in> set (lists s COMMIT))
     \<and> single (nfs_list_add_request r h s) \<and> single (nfs_list_remove_request r s)
     \<and> single (nfs_inode_add_request r s) \<and> single (nfs_inode_remove_request r s)
     \<and> single (nfs_release_request r s)
     \<and> single (snd (nfs_lock_request r s)) \<and> single (nfs_unlock_request r s)
     \<and> single (nfs_mark_request_dirty r s) \<and> single (nfs_mark_request_commit r s)
     \<and> single (snd (nfs_scan_dirty k dst file start count s))
     \<and> single (snd (nfs_scan_commit k dst file start count s))
     \<and> single (snd (coalesce_requests k src dst maxpages s))
     \<and> single (nfs_writeback_done k tk_status resp_count argp_count verf jiffies s)
     \<and> single (nfs_commit_done tk_status verf s)
     \<and> (single_passes ps
          \<and> nfs_update_request k fl page offset bytes locked now cred ps s = Some (x, s1) \<longrightarrow>
            single s1)"
proof -
  from assms have "set (lists s DIRTY) \<inter> set (lists s COMMIT) = {}"
    by (simp add: single_iff)
  then have one: "\<not> (r \<in> set (lists s DIRTY) \<and> r \<in> set (lists s COMMIT))"
    by auto
  note ops = single_list_add [OF assms] single_list_remove [OF assms] single_inode_add [OF assms]
    single_inode_remove [OF assms] single_release [OF assms] single_lock [OF assms]
    single_unlock [OF assms] single_mark_dirty [OF assms] single_mark_commit [OF assms]
    single_scan_dirty [OF assms] single_scan_commit [OF assms]
  have co: "single (snd (coalesce_requests k src dst maxpages s))"
    unfolding coalesce_requests_def using assms by (rule single_coalesce_loop)
  have wr: "single (nfs_writeback_done k tk_status resp_count argp_count verf jiffies s)"
    unfolding nfs_writeback_done_def Let_def using assms by (rule single_writeback_loop)
  have cm: "single (nfs_commit_done tk_status verf s)"
    unfolding nfs_commit_done_def using assms by (rule single_commit_loop)
  have up: "single_passes ps
          \<and> nfs_update_request k fl page offset bytes locked now cred ps s = Some (x, s1) \<longrightarrow>
            single s1"
    using single_update [OF _ assms] by blast
  from one ops co wr cm up show ?thesis
    by (intro conjI)
qed

theorem single_membership_witness:
  "single batch_state \<and> single (nfs_commit_done 0 server_verf batch_state)
   \<and> single (nfs_writeback_done ex_consts 0 8192 8192 server_verf 0 batch_state)
   \<and> \<not> (2 \<in> set (lists batch_state DIRTY) \<and> 2 \<in> set (lists batch_state COMMIT))
   \<and> single dirty_state
   \<and> single_passes [\<lparr>wait_effect = id, create_passes = []\<rparr>]
   \<and> (\<exists>s'. nfs_update_request ex_consts 7 0 100 50 False 0 0
               [\<lparr>wait_effect = id, create_passes = []\<rparr>] dirty_state = Some (Inr 1, s')
           \<and> single s')"
proof -
  note defs = dirty_state_def ex_state_def ex_page_def
  have s: "single batch_state"
    by (simp add: single_def all_heads_def batch_defs)
  have d: "single dirty_state"
    by (simp add: single_def all_heads_def defs)
  have p: "single_passes [\<lparr>wait_effect = id, create_passes = []\<rparr>]"
    by (simp add: single_passes_def keeps_single_def)
  have found: "find (\<lambda>x. req_index dirty_state x = page_index dirty_state 0) (writeback dirty_state) = Some 1"
    by (simp add: req_index_def defs)
  have idle: "\<not> NFS_WBACK_BUSY (reqs dirty_state 1)"
    by (simp add: NFS_WBACK_BUSY_def defs)
  have own: "wb_file (reqs dirty_state 1) = 7" "wb_page (reqs dirty_state 1) = 0"
    by (simp_all add: defs)
  have dirty: "nfs_dirty_request dirty_state 1"
    by (simp add: nfs_dirty_request_def wb_list_empty_def all_heads_def defs)
  have touch: "unat (100 :: ulong) \<le> unat (wb_offset (reqs dirty_state 1)) + unat (wb_bytes (reqs dirty_state 1))"
    "unat (wb_offset (reqs dirty_state 1)) \<le> unat (100 :: ulong) + unat (50 :: u32)"
    by (simp_all add: defs)
  have fits: "unat (100 :: ulong) + unat (50 :: u32) < 2 ^ 32"
    "unat (wb_offset (reqs dirty_state 1)) + unat (wb_bytes (reqs dirty_state 1)) < 2 ^ 32"
    by (simp_all add: defs)
  have refs: "wb_count (reqs dirty_state 1) + 1 \<noteq> 0"
    by (simp add: defs)
  define s' where "s' = snd (the (nfs_update_request ex_consts 7 0 100 50 False 0 0
               [\<lparr>wait_effect = id, create_passes = []\<rparr>] dirty_state))"
  have run: "nfs_update_request ex_consts 7 0 100 50 False 0 0
               [\<lparr>wait_effect = id, create_passes = []\<rparr>] dirty_state = Some (Inr 1, s')"
    unfolding s'_def
    by (rule update_request_found(1) [OF found idle own dirty touch fits refs])
  from single_membership [OF d, where ps = "[\<lparr>wait_effect = id, create_passes = []\<rparr>]"
         and k = ex_consts and fl = 7 and page = 0 and offset = 100 and bytes = 50
         and locked = False and now = 0 and cred = 0 and x = "Inr 1" and ?s1.0 = s'] p run
  have after: "single s'"
    by blast
  from single_membership [OF s, where r = 2 and tk_status = 0 and verf = server_verf
         and k = ex_consts and resp_count = 8192 and argp_count = 8192 and jiffies = 0] s
  have "single batch_state \<and> single (nfs_commit_done 0 server_verf batch_state)
     \<and> single (nfs_writeback_done ex_consts 0 8192 8192 server_verf 0 batch_state)
     \<and> \<not> (2 \<in> set (lists batch_state DIRTY) \<and> 2 \<in> set (lists batch_state COMMIT))"
    by blast
  with d p run after show ?thesis
    by blast
qed

end
